theory Spec2Isabelle
  imports Main "HOL-Library.AList" "HOL-Library.Multiset" "HOL-Library.Sublist"
begin

section \<open>Huffman coding: the two Python modules as HOL functions\<close>

text \<open>
  The repository holds two modules, \<^verbatim>\<open>HuffmanAlgorithm.py\<close> and
  \<^verbatim>\<open>HuffmanAlgorithm2.py\<close>. Both define the class \<^verbatim>\<open>Node\<close> and the functions
  \<^verbatim>\<open>build_frequency_table\<close>, \<^verbatim>\<open>build_huffman_tree\<close>, \<^verbatim>\<open>generate_codes\<close>,
  \<^verbatim>\<open>encode_text\<close> and \<^verbatim>\<open>decode_text\<close>. The functions of the first module keep their
  names here; those of the second carry the suffix \<open>2\<close>.

  A Python object that is either a symbol or \<^verbatim>\<open>None\<close> is an \<open>'a option\<close>; an exception
  is the \<open>Inl\<close> side of a sum (or an \<open>error option\<close> beside the state of a mutated
  dictionary); a dictionary is an association list in insertion order, updated by
  \<^const>\<open>AList.update\<close> (a new key goes to the end, an old key keeps its place).
\<close>

subsection \<open>Data\<close>

text \<open>
  The exceptions of Python that the code can raise. \<open>EmptyInputError\<close> is the name the
  specification gives to a dedicated error for an empty table; no statement of either
  module raises it.
\<close>

datatype error = IndexError | KeyError | AttributeError | TypeError | EmptyInputError

text \<open>
  \<^verbatim>\<open>class Node\<close>: the fields \<^verbatim>\<open>char\<close>, \<^verbatim>\<open>freq\<close>, \<^verbatim>\<open>left\<close>, \<^verbatim>\<open>right\<close>. The constructor
  sets both children to \<^verbatim>\<open>None\<close>; \<^verbatim>\<open>build_huffman_tree\<close> assigns them afterwards.
\<close>

datatype 'a node =
  Node (char: "'a option") (freq: int) (left: "'a node option") (right: "'a node option")

text \<open>\<^verbatim>\<open>Node.__lt__\<close>: nodes are compared by frequency alone.\<close>

definition node_lt :: "'a node \<Rightarrow> 'a node \<Rightarrow> bool" where
  "node_lt self other = (freq self < freq other)"

type_synonym 'a freq_table = "('a \<times> int) list"
type_synonym 'a code_table = "('a option \<times> string) list"

subsection \<open>The standard library's heapq, on a list of nodes\<close>

text \<open>
  Both modules import \<^verbatim>\<open>heapq\<close> and call \<^verbatim>\<open>heapify\<close>, \<^verbatim>\<open>heappop\<close> and
  \<^verbatim>\<open>heappush\<close> on a list of nodes. The functions below follow \<^verbatim>\<open>heapq.py\<close> of the
  Python distribution statement by statement; items are compared by \<^verbatim>\<open>Node.__lt__\<close>
  only. Inside these functions every index is within the list (\<open>pos\<close> and the child
  and parent positions are below \<open>len(heap)\<close>), so the reads are written \<open>heap ! i\<close>;
  the one read that can fail, \<^verbatim>\<open>heap.pop()\<close> on an empty list, is an error value of
  \<open>heappop\<close>.
\<close>

text \<open>
  \<^verbatim>\<open>heapq._siftdown(heap, startpos, pos)\<close>: the item at \<open>pos\<close> moves towards the root
  while it is smaller than its parent. The loop carries the item and the hole; the
  final assignment \<^verbatim>\<open>heap[pos] = newitem\<close> is made where the loop ends.
\<close>

function siftdown_loop :: "'a node list \<Rightarrow> 'a node \<Rightarrow> nat \<Rightarrow> nat \<Rightarrow> 'a node list" where
  "siftdown_loop heap newitem startpos pos =
     (if pos > startpos then
        (let parentpos = (pos - 1) div 2;
             parent = heap ! parentpos
         in if node_lt newitem parent
            then siftdown_loop (heap[pos := parent]) newitem startpos parentpos
            else heap[pos := newitem])
      else heap[pos := newitem])"
  by pat_completeness auto
termination
  by (relation "measure (\<lambda>(heap, newitem, startpos, pos). pos)") auto

declare siftdown_loop.simps [simp del]

definition siftdown :: "'a node list \<Rightarrow> nat \<Rightarrow> nat \<Rightarrow> 'a node list" where
  "siftdown heap startpos pos = siftdown_loop heap (heap ! pos) startpos pos"

text \<open>
  \<^verbatim>\<open>heapq._siftup(heap, pos)\<close>: the smaller child is moved up until the hole reaches a
  leaf position; the item is put there and sifted back towards \<open>startpos\<close>. The right
  child is taken unless the left one is strictly smaller.
\<close>

function siftup_loop :: "'a node list \<Rightarrow> nat \<Rightarrow> nat \<Rightarrow> nat \<Rightarrow> 'a node list \<times> nat" where
  "siftup_loop heap endpos pos childpos =
     (if childpos < endpos then
        (let rightpos = childpos + 1;
             childpos' = (if rightpos < endpos \<and> \<not> node_lt (heap ! childpos) (heap ! rightpos)
                          then rightpos else childpos)
         in siftup_loop (heap[pos := heap ! childpos']) endpos childpos' (2 * childpos' + 1))
      else (heap, pos))"
  by pat_completeness auto
termination
  by (relation "measure (\<lambda>(heap, endpos, pos, childpos). endpos - childpos)") auto

declare siftup_loop.simps [simp del]

definition siftup :: "'a node list \<Rightarrow> nat \<Rightarrow> 'a node list" where
  "siftup heap pos =
     (let endpos = length heap;
          startpos = pos;
          newitem = heap ! pos;
          (heap', pos') = siftup_loop heap endpos pos (2 * pos + 1)
      in siftdown (heap'[pos' := newitem]) startpos pos')"

text \<open>\<^verbatim>\<open>heapq.heappush\<close>: append, then sift the new last item towards the root.\<close>

definition heappush :: "'a node list \<Rightarrow> 'a node \<Rightarrow> 'a node list" where
  "heappush heap item = siftdown (heap @ [item]) 0 (length heap)"

text \<open>
  \<^verbatim>\<open>heapq.heappop\<close>: \<^verbatim>\<open>heap.pop()\<close> raises IndexError on an empty list; otherwise the
  last item replaces the root, which is returned, and is sifted into place.
\<close>

definition heappop :: "'a node list \<Rightarrow> error + ('a node \<times> 'a node list)" where
  "heappop heap =
     (if heap = [] then Inl IndexError
      else (let lastelt = last heap;
                heap' = butlast heap
            in if heap' \<noteq> []
               then (let returnitem = heap' ! 0
                     in Inr (returnitem, siftup (heap'[0 := lastelt]) 0))
               else Inr (lastelt, heap')))"

text \<open>\<^verbatim>\<open>heapq.heapify\<close>: \<^verbatim>\<open>for i in reversed(range(n//2)): _siftup(x, i)\<close>.\<close>

definition heapify :: "'a node list \<Rightarrow> 'a node list" where
  "heapify x = fold (\<lambda>i heap. siftup heap i) (rev [0 ..< length x div 2]) x"

text \<open>None of these changes the length of the list, which is what bounds the merge loop.\<close>

lemma length_siftdown_loop [simp]:
  "length (siftdown_loop heap newitem startpos pos) = length heap"
  by (induction heap newitem startpos pos rule: siftdown_loop.induct)
     (subst siftdown_loop.simps, simp add: Let_def)

lemma length_siftdown [simp]: "length (siftdown heap startpos pos) = length heap"
  by (simp add: siftdown_def)

lemma length_siftup_loop [simp]:
  "length (fst (siftup_loop heap endpos pos childpos)) = length heap"
  by (induction heap endpos pos childpos rule: siftup_loop.induct)
     (subst siftup_loop.simps, simp add: Let_def)

lemma length_siftup [simp]: "length (siftup heap pos) = length heap"
  by (simp add: siftup_def Let_def split: prod.split)
     (metis fst_conv length_siftup_loop)

lemma length_heappush [simp]: "length (heappush heap item) = Suc (length heap)"
  by (simp add: heappush_def)

lemma length_heappop:
  "heappop heap = Inr (item, heap') \<Longrightarrow> Suc (length heap') = length heap"
  by (cases heap rule: rev_cases) (auto simp: heappop_def Let_def split: if_splits)

lemma length_heapify [simp]: "length (heapify x) = length x"
proof -
  have "length (fold (\<lambda>i heap. siftup heap i) is x) = length x" for "is"
    by (induction "is" arbitrary: x) simp_all
  then show ?thesis by (simp add: heapify_def)
qed

subsection \<open>The functions of HuffmanAlgorithm.py\<close>

text \<open>
  \<^verbatim>\<open>build_frequency_table(text) = Counter(text)\<close>: one pass over the text, each symbol's
  count starting at 1 and growing by 1; the keys stand in order of first occurrence.
\<close>

definition build_frequency_table :: "'a list \<Rightarrow> 'a freq_table" where
  "build_frequency_table text =
     fold (\<lambda>elem counts.
             AList.update elem (case map_of counts elem of None \<Rightarrow> 1 | Some n \<Rightarrow> n + 1) counts)
          text []"

text \<open>
  The \<^verbatim>\<open>while len(heap) > 1\<close> loop of \<^verbatim>\<open>build_huffman_tree\<close>: pop two nodes, make
  the first the left and the second the right child of a new node without a symbol,
  push that node.
\<close>

function merge_loop :: "'a node list \<Rightarrow> error + 'a node list" where
  "merge_loop heap =
     (if length heap > 1 then
        (case heappop heap of
           Inl e \<Rightarrow> Inl e
         | Inr (node1, heap1) \<Rightarrow>
             (case heappop heap1 of
                Inl e \<Rightarrow> Inl e
              | Inr (node2, heap2) \<Rightarrow>
                  (let merged = Node None (freq node1 + freq node2) (Some node1) (Some node2)
                   in merge_loop (heappush heap2 merged))))
      else Inr heap)"
  by pat_completeness auto
termination
proof (relation "measure length", goal_cases)
  case 1
  show ?case by simp
next
  case (2 heap x node1 heap1 y node2 heap2 merged)
  then have "heappop heap = Inr (node1, heap1)" "heappop heap1 = Inr (node2, heap2)"
    by simp_all
  then have "Suc (length heap1) = length heap" "Suc (length heap2) = length heap1"
    by (simp_all add: length_heappop)
  then show ?case by simp
qed

declare merge_loop.simps [simp del]

text \<open>
  \<^verbatim>\<open>build_huffman_tree(freq_table)\<close>: a leaf for every item of the table, heapify,
  the loop, and \<^verbatim>\<open>heap[0]\<close>, which raises IndexError on an empty list.
\<close>

definition build_huffman_tree :: "'a freq_table \<Rightarrow> error + 'a node" where
  "build_huffman_tree freq_table =
     (let heap = heapify (map (\<lambda>(c, f). Node (Some c) f None None) freq_table)
      in case merge_loop heap of
           Inl e \<Rightarrow> Inl e
         | Inr heap' \<Rightarrow> (case heap' of [] \<Rightarrow> Inl IndexError | root # _ \<Rightarrow> Inr root))"

text \<open>
  \<^verbatim>\<open>generate_codes(root, current_code, codes)\<close>. The dictionary \<open>codes\<close> is mutated in
  place and is also the value returned, so the function returns its final state, beside
  the exception if one was raised (reading \<^verbatim>\<open>.left\<close> of \<^verbatim>\<open>None\<close> is an
  AttributeError). The argument is \<open>None\<close> when the caller passes \<^verbatim>\<open>None\<close>, in which
  case a new dictionary is made.
\<close>

fun generate_codes ::
  "'a node \<Rightarrow> string \<Rightarrow> 'a code_table option \<Rightarrow> 'a code_table \<times> error option" where
  "generate_codes (Node c f l r) current_code codes_arg =
     (let codes = (case codes_arg of None \<Rightarrow> [] | Some d \<Rightarrow> d)
      in if l = None \<and> r = None then
           (if current_code = [] then (AList.update c ''0'' codes, None)
            else (AList.update c current_code codes, None))
         else
           (case l of
              None \<Rightarrow> (codes, Some AttributeError)
            | Some root_left \<Rightarrow>
                (case generate_codes root_left (current_code @ ''0'') (Some codes) of
                   (codes1, Some e) \<Rightarrow> (codes1, Some e)
                 | (codes1, None) \<Rightarrow>
                     (case r of
                        None \<Rightarrow> (codes1, Some AttributeError)
                      | Some root_right \<Rightarrow>
                          generate_codes root_right (current_code @ ''1'') (Some codes1)))))"

text \<open>
  A top-level call \<^verbatim>\<open>generate_codes(root)\<close>. In this module the default of \<open>codes\<close> is
  the dictionary \<^verbatim>\<open>{}\<close> made once, when the function is defined: every call with the
  default works on that one object. The state \<open>shared\<close> is its content; the call returns
  the new content (the object itself is what the caller receives).
\<close>

definition generate_codes_call ::
  "'a code_table \<Rightarrow> 'a node \<Rightarrow> 'a code_table \<times> error option" where
  "generate_codes_call shared root = generate_codes root [] (Some shared)"

text \<open>
  \<^verbatim>\<open>encode_text(text, codes)\<close>: \<^verbatim>\<open>codes[char]\<close> raises KeyError at the first symbol
  without an entry.
\<close>

fun encode_text :: "'a list \<Rightarrow> 'a code_table \<Rightarrow> error + string" where
  "encode_text [] codes = Inr []"
| "encode_text (ch # text) codes =
     (case map_of codes (Some ch) of
        None \<Rightarrow> Inl KeyError
      | Some code \<Rightarrow>
          (case encode_text text codes of
             Inl e \<Rightarrow> Inl e
           | Inr rest \<Rightarrow> Inr (code @ rest)))"

text \<open>
  The \<^verbatim>\<open>for bit in encoded_text\<close> loop of \<^verbatim>\<open>decode_text\<close> (the loop variable is
  \<open>b\<close> here). A missing child makes
  \<open>current\<close> \<^verbatim>\<open>None\<close>, and \<^verbatim>\<open>current.char\<close> then raises AttributeError.
\<close>

fun decode_loop :: "'a node \<Rightarrow> string \<Rightarrow> 'a node \<Rightarrow> 'a list \<Rightarrow> error + 'a list" where
  "decode_loop root [] current result = Inr result"
| "decode_loop root (b # rest) current result =
     (case (if b = CHR ''0'' then left current else right current) of
        None \<Rightarrow> Inl AttributeError
      | Some current' \<Rightarrow>
          (case char current' of
             Some c \<Rightarrow> decode_loop root rest root (result @ [c])
           | None \<Rightarrow> decode_loop root rest current' result))"

text \<open>
  \<^verbatim>\<open>decode_text(encoded_text, root)\<close>. For a root without children the symbol is
  repeated; \<^verbatim>\<open>None * n\<close> is a TypeError.
\<close>

definition decode_text :: "string \<Rightarrow> 'a node \<Rightarrow> error + 'a list" where
  "decode_text encoded_text root =
     (if left root = None \<and> right root = None then
        (case char root of
           None \<Rightarrow> Inl TypeError
         | Some c \<Rightarrow> Inr (replicate (length encoded_text) c))
      else decode_loop root encoded_text root [])"

subsection \<open>The functions of HuffmanAlgorithm2.py\<close>

text \<open>
  The second module declares the same class \<^verbatim>\<open>Node\<close> and imports the same
  \<^verbatim>\<open>heapq\<close>. Its functions are translated from its own text.
\<close>

definition build_frequency_table2 :: "'a list \<Rightarrow> 'a freq_table" where
  "build_frequency_table2 text =
     fold (\<lambda>elem counts.
             AList.update elem (case map_of counts elem of None \<Rightarrow> 1 | Some n \<Rightarrow> n + 1) counts)
          text []"

function merge_loop2 :: "'a node list \<Rightarrow> error + 'a node list" where
  "merge_loop2 heap =
     (if length heap > 1 then
        (case heappop heap of
           Inl e \<Rightarrow> Inl e
         | Inr (node1, heap1) \<Rightarrow>
             (case heappop heap1 of
                Inl e \<Rightarrow> Inl e
              | Inr (node2, heap2) \<Rightarrow>
                  (let merged = Node None (freq node1 + freq node2) (Some node1) (Some node2)
                   in merge_loop2 (heappush heap2 merged))))
      else Inr heap)"
  by pat_completeness auto
termination
proof (relation "measure length", goal_cases)
  case 1
  show ?case by simp
next
  case (2 heap x node1 heap1 y node2 heap2 merged)
  then have "heappop heap = Inr (node1, heap1)" "heappop heap1 = Inr (node2, heap2)"
    by simp_all
  then have "Suc (length heap1) = length heap" "Suc (length heap2) = length heap1"
    by (simp_all add: length_heappop)
  then show ?case by simp
qed

declare merge_loop2.simps [simp del]

definition build_huffman_tree2 :: "'a freq_table \<Rightarrow> error + 'a node" where
  "build_huffman_tree2 freq_table =
     (let heap = heapify (map (\<lambda>(c, f). Node (Some c) f None None) freq_table)
      in case merge_loop2 heap of
           Inl e \<Rightarrow> Inl e
         | Inr heap' \<Rightarrow> (case heap' of [] \<Rightarrow> Inl IndexError | root # _ \<Rightarrow> Inr root))"

fun generate_codes2 ::
  "'a node \<Rightarrow> string \<Rightarrow> 'a code_table option \<Rightarrow> 'a code_table \<times> error option" where
  "generate_codes2 (Node c f l r) current_code codes_arg =
     (let codes = (case codes_arg of None \<Rightarrow> [] | Some d \<Rightarrow> d)
      in if l = None \<and> r = None then
           (if current_code = [] then (AList.update c ''0'' codes, None)
            else (AList.update c current_code codes, None))
         else
           (case l of
              None \<Rightarrow> (codes, Some AttributeError)
            | Some root_left \<Rightarrow>
                (case generate_codes2 root_left (current_code @ ''0'') (Some codes) of
                   (codes1, Some e) \<Rightarrow> (codes1, Some e)
                 | (codes1, None) \<Rightarrow>
                     (case r of
                        None \<Rightarrow> (codes1, Some AttributeError)
                      | Some root_right \<Rightarrow>
                          generate_codes2 root_right (current_code @ ''1'') (Some codes1)))))"

text \<open>
  A top-level call \<^verbatim>\<open>generate_codes(root)\<close> of the second module: the default of
  \<open>codes\<close> is \<^verbatim>\<open>None\<close>, so the call makes its own dictionary and there is no state.
\<close>

definition generate_codes2_call :: "'a node \<Rightarrow> 'a code_table \<times> error option" where
  "generate_codes2_call root = generate_codes2 root [] None"

fun encode_text2 :: "'a list \<Rightarrow> 'a code_table \<Rightarrow> error + string" where
  "encode_text2 [] codes = Inr []"
| "encode_text2 (ch # text) codes =
     (case map_of codes (Some ch) of
        None \<Rightarrow> Inl KeyError
      | Some code \<Rightarrow>
          (case encode_text2 text codes of
             Inl e \<Rightarrow> Inl e
           | Inr rest \<Rightarrow> Inr (code @ rest)))"

text \<open>Here the step is the conditional expression
  \<^verbatim>\<open>current.left if bit == '0' else current.right\<close>.\<close>

fun decode_loop2 :: "'a node \<Rightarrow> string \<Rightarrow> 'a node \<Rightarrow> 'a list \<Rightarrow> error + 'a list" where
  "decode_loop2 root [] current result = Inr result"
| "decode_loop2 root (b # rest) current result =
     (let current' = (if b = CHR ''0'' then left current else right current)
      in case current' of
           None \<Rightarrow> Inl AttributeError
         | Some n \<Rightarrow>
             (case char n of
                Some c \<Rightarrow> decode_loop2 root rest root (result @ [c])
              | None \<Rightarrow> decode_loop2 root rest n result))"

definition decode_text2 :: "string \<Rightarrow> 'a node \<Rightarrow> error + 'a list" where
  "decode_text2 encoded_text root =
     (if left root = None \<and> right root = None then
        (case char root of
           None \<Rightarrow> Inl TypeError
         | Some c \<Rightarrow> Inr (replicate (length encoded_text) c))
      else decode_loop2 root encoded_text root [])"

section \<open>Notions for the statements and proofs\<close>

text \<open>
  None of the definitions of this section is part of the program: they name what the
  statements and proofs about the program speak of.
\<close>

subsection \<open>Trees of symbols\<close>

text \<open>
  A node is proper when it is either a leaf that carries a symbol or a node without a
  symbol that has both children, themselves proper. The shape of a proper node is the
  binary tree of its symbols (\<open>shape\<close> is used for proper nodes only).
\<close>

datatype 'a tree = Leaf 'a | Branch "'a tree" "'a tree"

fun proper :: "'a node \<Rightarrow> bool" where
  "proper (Node c f None None) = (c \<noteq> None)"
| "proper (Node c f (Some l) (Some r)) = (c = None \<and> proper l \<and> proper r)"
| "proper (Node c f None (Some r)) = False"
| "proper (Node c f (Some l) None) = False"

fun shape :: "'a node \<Rightarrow> 'a tree" where
  "shape (Node c f None None) = Leaf (the c)"
| "shape (Node c f (Some l) (Some r)) = Branch (shape l) (shape r)"
| "shape (Node c f None (Some r)) = Leaf (the c)"
| "shape (Node c f (Some l) None) = Leaf (the c)"

fun leaves :: "'a tree \<Rightarrow> 'a list" where
  "leaves (Leaf a) = [a]"
| "leaves (Branch l r) = leaves l @ leaves r"

text \<open>The symbols of a tree with the bits of the way to each, in the order of the walk.\<close>

fun paths :: "'a tree \<Rightarrow> ('a \<times> string) list" where
  "paths (Leaf a) = [(a, [])]"
| "paths (Branch l r) =
     map (\<lambda>(a, p). (a, CHR ''0'' # p)) (paths l) @ map (\<lambda>(a, p). (a, CHR ''1'' # p)) (paths r)"

text \<open>The entries that the walk of \<open>generate_codes\<close> writes, in order.\<close>

fun walk :: "'a tree \<Rightarrow> string \<Rightarrow> ('a \<times> string) list" where
  "walk (Leaf a) cur = [(a, if cur = [] then ''0'' else cur)]"
| "walk (Branch l r) cur = walk l (cur @ ''0'') @ walk r (cur @ ''1'')"

text \<open>Writing a list of entries into a code table, one after the other.\<close>

definition store :: "('a \<times> string) list \<Rightarrow> 'a code_table \<Rightarrow> 'a code_table" where
  "store entries codes = fold (\<lambda>(a, p). AList.update (Some a) p) entries codes"

text \<open>The decoding loop on shapes: \<open>root\<close> and \<open>cur\<close> are branches.\<close>

fun tdecode :: "'a tree \<Rightarrow> string \<Rightarrow> 'a tree \<Rightarrow> 'a list \<Rightarrow> 'a list" where
  "tdecode root [] cur res = res"
| "tdecode root (b # bs) (Leaf a) res = res"
| "tdecode root (b # bs) (Branch l r) res =
     (case (if b = CHR ''0'' then l else r) of
        Leaf a \<Rightarrow> tdecode root bs root (res @ [a])
      | Branch l' r' \<Rightarrow> tdecode root bs (Branch l' r') res)"

definition is_branch :: "'a tree \<Rightarrow> bool" where
  "is_branch t = (case t of Leaf a \<Rightarrow> False | Branch l r \<Rightarrow> True)"

text \<open>
  The node that one round of the merge loop makes, the symbols that stand at the leaves
  of the nodes of a heap, the leaves that \<open>build_huffman_tree\<close> starts from, and one
  step of the count of \<open>build_frequency_table\<close>.
\<close>

definition merged_node :: "'a node \<Rightarrow> 'a node \<Rightarrow> 'a node" where
  "merged_node node1 node2 = Node None (freq node1 + freq node2) (Some node1) (Some node2)"

definition symbols_of :: "'a node list \<Rightarrow> 'a multiset" where
  "symbols_of heap = (\<Sum>t\<in>#mset heap. mset (leaves (shape t)))"

definition leaf_nodes :: "'a freq_table \<Rightarrow> 'a node list" where
  "leaf_nodes freq_table = map (\<lambda>(c, f). Node (Some c) f None None) freq_table"

definition count_step :: "'a \<Rightarrow> 'a freq_table \<Rightarrow> 'a freq_table" where
  "count_step elem counts =
     AList.update elem (case map_of counts elem of None \<Rightarrow> 1 | Some n \<Rightarrow> n + 1) counts"

text \<open>
  A code table is prefix-free when, of two different entries, the code of the one is
  never a prefix of the code of the other (equal codes included).
\<close>

definition prefix_free :: "'a code_table \<Rightarrow> bool" where
  "prefix_free codes =
     (\<forall>(a, p)\<in>set codes. \<forall>(b, q)\<in>set codes. (a, p) \<noteq> (b, q) \<longrightarrow> \<not> prefix p q)"

subsection \<open>Heaps\<close>

text \<open>The child that one round of \<open>siftup_loop\<close> moves up.\<close>

definition pick_child :: "'a node list \<Rightarrow> nat \<Rightarrow> nat \<Rightarrow> nat" where
  "pick_child heap endpos childpos =
     (if childpos + 1 < endpos \<and> \<not> node_lt (heap ! childpos) (heap ! (childpos + 1))
      then childpos + 1 else childpos)"

text \<open>
  The list is a heap when no item is smaller than the item at its parent position
  \<open>(j - 1) div 2\<close>. \<open>ok_from k\<close> asks this only of parents at positions from \<open>k\<close> on,
  which is what \<open>heapify\<close> has reached after sifting position \<open>k\<close>.
\<close>

definition parent :: "nat \<Rightarrow> nat" where
  "parent j = (j - 1) div 2"

definition ok_from :: "nat \<Rightarrow> 'a node list \<Rightarrow> bool" where
  "ok_from k h =
     (\<forall>j<length h. 0 < j \<and> k \<le> parent j \<longrightarrow> freq (h ! parent j) \<le> freq (h ! j))"

definition is_heap :: "'a node list \<Rightarrow> bool" where
  "is_heap h = ok_from 0 h"

text \<open>The positions of the subtree below position \<open>k\<close>.\<close>

inductive below :: "nat \<Rightarrow> nat \<Rightarrow> bool" for k where
  below_refl: "below k k"
| below_left: "below k p \<Longrightarrow> below k (2 * p + 1)"
| below_right: "below k p \<Longrightarrow> below k (2 * p + 2)"

text \<open>
  A list with a hole at \<open>pos\<close>: the order holds between all positions other than the
  hole, and across the hole from its parent to its children.
\<close>

definition hole_inv :: "nat \<Rightarrow> 'a node list \<Rightarrow> nat \<Rightarrow> bool" where
  "hole_inv k h pos =
     ((\<forall>j<length h. 0 < j \<and> k \<le> parent j \<and> j \<noteq> pos \<and> parent j \<noteq> pos
          \<longrightarrow> freq (h ! parent j) \<le> freq (h ! j))
      \<and> (k < pos \<longrightarrow> (\<forall>j<length h. 0 < j \<and> parent j = pos
          \<longrightarrow> freq (h ! parent pos) \<le> freq (h ! j))))"

subsection \<open>Cost and optimality\<close>

text \<open>
  The cost of a tree for a weight \<open>w\<close> of the symbols is the sum over its leaves of the
  weight times the depth: the number of bits of a text in which each symbol \<open>a\<close> stands
  \<open>w a\<close> times.
\<close>

fun weight :: "('a \<Rightarrow> int) \<Rightarrow> 'a tree \<Rightarrow> int" where
  "weight w (Leaf a) = w a"
| "weight w (Branch l r) = weight w l + weight w r"

fun cost :: "('a \<Rightarrow> int) \<Rightarrow> 'a tree \<Rightarrow> int" where
  "cost w (Leaf a) = 0"
| "cost w (Branch l r) = weight w l + cost w l + weight w r + cost w r"

fun height :: "'a tree \<Rightarrow> nat" where
  "height (Leaf a) = 0"
| "height (Branch l r) = Suc (max (height l) (height r))"

fun depth :: "'a tree \<Rightarrow> 'a \<Rightarrow> nat" where
  "depth (Leaf x) a = 0"
| "depth (Branch l r) a =
     (if a \<in> set (leaves l) then Suc (depth l a)
      else if a \<in> set (leaves r) then Suc (depth r a) else 0)"

text \<open>
  A tree is optimal when no tree with the same symbols, each at one leaf, costs less.
\<close>

definition optimal :: "('a \<Rightarrow> int) \<Rightarrow> 'a tree \<Rightarrow> bool" where
  "optimal w t =
     (\<forall>u. distinct (leaves u) \<and> set (leaves u) = set (leaves t) \<longrightarrow> cost w t \<le> cost w u)"

text \<open>Exchanging two symbols.\<close>

definition sw :: "'a \<Rightarrow> 'a \<Rightarrow> 'a \<Rightarrow> 'a" where
  "sw x y z = (if z = x then y else if z = y then x else z)"

text \<open>Two leaves that are children of one node at the greatest depth.\<close>

fun deep_sibs :: "'a tree \<Rightarrow> 'a \<Rightarrow> 'a \<Rightarrow> bool" where
  "deep_sibs (Leaf x) a b = False"
| "deep_sibs (Branch l r) a b =
     ((l = Leaf a \<and> r = Leaf b)
      \<or> (height r \<le> height l \<and> deep_sibs l a b)
      \<or> (height l \<le> height r \<and> deep_sibs r a b))"

text \<open>\<open>split a b\<close> puts a node with the children \<open>a\<close> and \<open>b\<close> in the place of the leaf \<open>a\<close>.\<close>

fun split :: "'a \<Rightarrow> 'a \<Rightarrow> 'a tree \<Rightarrow> 'a tree" where
  "split a b (Leaf x) = (if x = a then Branch (Leaf a) (Leaf b) else Leaf x)"
| "split a b (Branch l r) = Branch (split a b l) (split a b r)"

text \<open>
  The leaf that the builder makes for a symbol, and the property that every leaf of a
  node is such a leaf.
\<close>

definition leaf :: "('a \<Rightarrow> int) \<Rightarrow> 'a \<Rightarrow> 'a node" where
  "leaf w a = Node (Some a) (w a) None None"

fun leaf_freqs :: "('a \<Rightarrow> int) \<Rightarrow> 'a node \<Rightarrow> bool" where
  "leaf_freqs w (Node c f None None) = (case c of None \<Rightarrow> False | Some a \<Rightarrow> f = w a)"
| "leaf_freqs w (Node c f (Some l) (Some r)) = (leaf_freqs w l \<and> leaf_freqs w r)"
| "leaf_freqs w (Node c f None (Some r)) = False"
| "leaf_freqs w (Node c f (Some l) None) = False"

text \<open>\<open>subst L M\<close> puts the node \<open>M\<close> in the place of every node equal to \<open>L\<close>.\<close>

fun subst :: "'a node \<Rightarrow> 'a node \<Rightarrow> 'a node \<Rightarrow> 'a node" where
  "subst L M (Node c f l r) =
     (if Node c f l r = L then M
      else Node c f (map_option (subst L M) l) (map_option (subst L M) r))"

text \<open>
  A valid prefix code for a set of symbols: every symbol has a code, a non-empty string
  of the characters \<open>0\<close> and \<open>1\<close>, and the code of a symbol is not a prefix of the code of
  another.
\<close>

definition valid_prefix_code :: "'a set \<Rightarrow> 'a code_table \<Rightarrow> bool" where
  "valid_prefix_code A codes =
     ((\<forall>a\<in>A. \<exists>p. map_of codes (Some a) = Some p \<and> p \<noteq> [] \<and> set p \<subseteq> {CHR ''0'', CHR ''1''})
      \<and> (\<forall>a\<in>A. \<forall>b\<in>A. a \<noteq> b \<longrightarrow>
            \<not> prefix (the (map_of codes (Some a))) (the (map_of codes (Some b)))))"

section \<open>Properties\<close>

subsection \<open>The heap functions permute their list\<close>

text \<open>
  \<open>siftdown_loop\<close> and \<open>siftup_loop\<close> move a hole through the list; once the item is
  put into the hole, the list holds the same items as before.
\<close>

lemma mset_move_hole:
  "i < length xs \<Longrightarrow> j < length xs \<Longrightarrow> i \<noteq> j \<Longrightarrow>
   mset (xs[i := xs ! j, j := x]) = mset (xs[i := x])"
  by (simp add: mset_update)

lemma mset_siftdown_loop:
  "pos < length heap \<Longrightarrow>
   mset (siftdown_loop heap newitem startpos pos) = mset (heap[pos := newitem])"
proof (induction heap newitem startpos pos rule: siftdown_loop.induct)
  case (1 heap newitem startpos pos)
  show ?case
  proof (cases "pos > startpos \<and> node_lt newitem (heap ! ((pos - 1) div 2))")
    case True
    let ?pp = "(pos - 1) div 2"
    from True 1(2) have pp: "?pp < length heap" "?pp \<noteq> pos" by auto
    have "mset (siftdown_loop heap newitem startpos pos)
        = mset (siftdown_loop (heap[pos := heap ! ?pp]) newitem startpos ?pp)"
      using True by (subst siftdown_loop.simps) (simp add: Let_def)
    also have "\<dots> = mset (heap[pos := heap ! ?pp, ?pp := newitem])"
      using True pp by (intro 1(1)) (auto simp: Let_def)
    also have "\<dots> = mset (heap[pos := newitem])"
      using pp 1(2) by (simp add: mset_move_hole)
    finally show ?thesis .
  next
    case False
    then show ?thesis by (subst siftdown_loop.simps) (auto simp: Let_def)
  qed
qed

lemma mset_siftdown: "pos < length heap \<Longrightarrow> mset (siftdown heap startpos pos) = mset heap"
  by (simp add: siftdown_def mset_siftdown_loop)

lemma siftup_loop_unfold:
  "siftup_loop heap endpos pos childpos =
     (if childpos < endpos
      then siftup_loop (heap[pos := heap ! pick_child heap endpos childpos]) endpos
             (pick_child heap endpos childpos) (2 * pick_child heap endpos childpos + 1)
      else (heap, pos))"
  by (subst siftup_loop.simps) (simp add: Let_def pick_child_def)

lemma siftup_loop_induct:
  assumes "\<And>heap endpos pos childpos.
    (childpos < endpos \<Longrightarrow>
       P (heap[pos := heap ! pick_child heap endpos childpos]) endpos
         (pick_child heap endpos childpos) (2 * pick_child heap endpos childpos + 1)) \<Longrightarrow>
    P heap endpos pos childpos"
  shows "P heap endpos pos childpos"
proof (induction heap endpos pos childpos rule: siftup_loop.induct)
  case (1 heap endpos pos childpos)
  show ?case
  proof (rule assms)
    assume "childpos < endpos"
    from 1[OF this refl refl]
    show "P (heap[pos := heap ! pick_child heap endpos childpos]) endpos
         (pick_child heap endpos childpos) (2 * pick_child heap endpos childpos + 1)"
      by (simp add: pick_child_def)
  qed
qed

lemma pick_child_bounds:
  "childpos < endpos \<Longrightarrow>
   childpos \<le> pick_child heap endpos childpos \<and> pick_child heap endpos childpos < endpos
   \<and> pick_child heap endpos childpos \<le> childpos + 1"
  by (simp add: pick_child_def)

lemma siftup_loop_hole:
  "pos < length heap \<Longrightarrow> endpos \<le> length heap \<Longrightarrow> pos < childpos \<Longrightarrow>
   siftup_loop heap endpos pos childpos = (heap', pos') \<Longrightarrow>
   pos' < length heap \<and> length heap' = length heap
   \<and> mset (heap'[pos' := x]) = mset (heap[pos := x])"
proof (induction heap endpos pos childpos arbitrary: heap' pos' rule: siftup_loop_induct)
  case (1 heap endpos pos childpos)
  show ?case
  proof (cases "childpos < endpos")
    case True
    define c where "c = pick_child heap endpos childpos"
    have c: "c < length heap" "pos < c" "c < endpos"
      using True 1(3,4) pick_child_bounds[OF True, of heap] by (auto simp: c_def)
    have step: "siftup_loop (heap[pos := heap ! c]) endpos c (2 * c + 1) = (heap', pos')"
      using 1(5) True by (subst (asm) siftup_loop_unfold) (simp add: c_def)
    have "pos' < length (heap[pos := heap ! c]) \<and> length heap' = length (heap[pos := heap ! c]) \<and>
          mset (heap'[pos' := x]) = mset (heap[pos := heap ! c, c := x])"
      using True c 1(3) step unfolding c_def by (intro 1(1)) auto
    moreover have "mset (heap[pos := heap ! c, c := x]) = mset (heap[pos := x])"
      using c 1(2) by (simp add: mset_move_hole)
    ultimately show ?thesis by simp
  next
    case False
    then show ?thesis using 1(2,5) by (subst (asm) siftup_loop_unfold) auto
  qed
qed

lemma mset_siftup: "pos < length heap \<Longrightarrow> mset (siftup heap pos) = mset heap"
proof -
  assume p: "pos < length heap"
  obtain heap' pos' where s: "siftup_loop heap (length heap) pos (2 * pos + 1) = (heap', pos')"
    by force
  from siftup_loop_hole[OF p _ _ s, of "heap ! pos"] p
  have h: "pos' < length heap'" "mset (heap'[pos' := heap ! pos]) = mset heap" by auto
  then show ?thesis using s by (simp add: siftup_def Let_def mset_siftdown)
qed

lemma mset_heappush: "mset (heappush heap item) = add_mset item (mset heap)"
  by (simp add: heappush_def mset_siftdown)

lemma heappop_nonempty:
  "heap \<noteq> [] \<Longrightarrow> \<exists>item heap'. heappop heap = Inr (item, heap')"
  by (simp add: heappop_def Let_def)

lemma mset_heappop:
  assumes "heappop heap = Inr (item, heap')"
  shows "mset heap = add_mset item (mset heap')"
proof (cases heap rule: rev_cases)
  case Nil
  with assms show ?thesis by (simp add: heappop_def)
next
  case (snoc ys y)
  show ?thesis
  proof (cases ys)
    case Nil
    with snoc assms show ?thesis by (auto simp: heappop_def)
  next
    case (Cons z zs)
    with snoc assms have "item = z" "heap' = siftup (y # zs) 0"
      by (auto simp: heappop_def)
    then show ?thesis using snoc Cons by (simp add: mset_siftup)
  qed
qed

lemma mset_heapify: "mset (heapify x) = mset x"
proof -
  have "\<forall>i\<in>set is. i < length x \<Longrightarrow> mset (fold (\<lambda>i heap. siftup heap i) is x) = mset x" for "is"
    by (induction "is" arbitrary: x) (simp_all add: mset_siftup)
  moreover have "\<forall>i\<in>set (rev [0 ..< length x div 2]). i < length x" by auto
  ultimately show ?thesis unfolding heapify_def by blast
qed

subsection \<open>Proper nodes and their shape\<close>

text \<open>
  On a proper node \<open>generate_codes\<close> raises nothing and writes the entries of \<open>walk\<close>,
  which are the paths of the shape unless the node is a single leaf.
\<close>

lemma store_simps [simp]:
  "store [] codes = codes"
  "store ((a, p) # es) codes = store es (AList.update (Some a) p codes)"
  "store (es @ es') codes = store es' (store es codes)"
  by (simp_all add: store_def)

lemma generate_codes_proper:
  "proper t \<Longrightarrow>
   generate_codes t cur (Some codes) = (store (walk (shape t) cur) codes, None)"
  by (induction t arbitrary: cur codes rule: proper.induct) simp_all

lemma map_fst_walk [simp]: "map fst (walk t cur) = leaves t"
  by (induction t arbitrary: cur) simp_all

lemma map_fst_paths [simp]: "map fst (paths t) = leaves t"
  by (induction t) (simp_all add: case_prod_unfold comp_def)

lemma walk_paths:
  "cur \<noteq> [] \<Longrightarrow> walk t cur = map (\<lambda>(a, p). (a, cur @ p)) (paths t)"
  by (induction t arbitrary: cur) (simp_all add: case_prod_unfold comp_def)

lemma walk_Branch: "walk (Branch l r) [] = paths (Branch l r)"
  by (simp add: walk_paths case_prod_unfold)

lemma map_of_store_other:
  "k \<notin> Some ` fst ` set es \<Longrightarrow> map_of (store es codes) k = map_of codes k"
  by (induction es arbitrary: codes) (auto simp: update_conv')

lemma map_of_store:
  "distinct (map fst es) \<Longrightarrow> (a, p) \<in> set es \<Longrightarrow> map_of (store es codes) (Some a) = Some p"
proof (induction es arbitrary: codes)
  case Nil
  then show ?case by simp
next
  case (Cons e es)
  obtain b q where e: "e = (b, q)" by (cases e)
  show ?case
  proof (cases "(a, p) \<in> set es")
    case True
    with Cons e show ?thesis by simp
  next
    case False
    with Cons e have "a = b" "p = q" "Some a \<notin> Some ` fst ` set es"
      by (auto simp: image_iff)
    then show ?thesis using e by (simp add: map_of_store_other update_conv')
  qed
qed

lemma keys_update: "fst ` set (AList.update k v al) = insert k (fst ` set al)"
  using arg_cong[OF update_keys[of k v al], of set] by (simp split: if_splits) blast

lemma keys_store: "fst ` set (store es codes) = fst ` set codes \<union> Some ` fst ` set es"
proof (induction es arbitrary: codes)
  case Nil
  show ?case by simp
next
  case (Cons e es)
  obtain a p where e: "e = (a, p)" by (cases e)
  have "fst ` set (store (e # es) codes)
      = insert (Some a) (fst ` set codes) \<union> Some ` fst ` set es"
    unfolding e store_simps Cons.IH keys_update ..
  then show ?case using e by auto
qed

subsection \<open>Decoding on shapes\<close>

text \<open>
  On a proper node that is not a single leaf the decoding loop raises nothing and is
  \<open>tdecode\<close> on the shape; a complete path emits its symbol and returns to the root.
\<close>

lemma is_branch_simps [simp]: "\<not> is_branch (Leaf a)" "is_branch (Branch l r)"
  by (simp_all add: is_branch_def)

lemma proper_cases:
  assumes "proper t"
  obtains (leaf) a f where "t = Node (Some a) f None None"
  | (branch) f l r where "t = Node None f (Some l) (Some r)" "proper l" "proper r"
  using assms by (cases t rule: proper.cases) auto

lemma decode_loop_proper:
  "proper root \<Longrightarrow> is_branch (shape root) \<Longrightarrow> proper cur \<Longrightarrow> is_branch (shape cur) \<Longrightarrow>
   decode_loop root bits cur res = Inr (tdecode (shape root) bits (shape cur) res)"
proof (induction bits arbitrary: cur res)
  case Nil
  show ?case by simp
next
  case (Cons b bits)
  from Cons.prems(3,4) obtain f l r where cur: "cur = Node None f (Some l) (Some r)"
    and lr: "proper l" "proper r"
    by (cases cur rule: proper_cases) auto
  define n where "n = (if b = CHR ''0'' then l else r)"
  have n: "proper n" using lr by (simp add: n_def)
  from n show ?case
  proof (cases n rule: proper_cases)
    case (leaf a f')
    then show ?thesis using cur Cons.IH[OF Cons.prems(1,2) Cons.prems(1,2)]
      by (auto simp: n_def split: if_splits)
  next
    case (branch f' l' r')
    then have "proper n" "is_branch (shape n)" using n by simp_all
    from Cons.IH[OF Cons.prems(1,2) this] branch cur show ?thesis
      by (auto simp: n_def split: if_splits)
  qed
qed

lemma decode_text_proper:
  "proper root \<Longrightarrow> is_branch (shape root) \<Longrightarrow>
   decode_text bits root = Inr (tdecode (shape root) bits (shape root) [])"
  by (cases root rule: proper_cases) (auto simp: decode_text_def decode_loop_proper)

lemma tdecode_path:
  "(a, p) \<in> set (paths cur) \<Longrightarrow> is_branch cur \<Longrightarrow>
   tdecode root (p @ rest) cur res = tdecode root rest root (res @ [a])"
proof (induction cur arbitrary: p)
  case (Leaf x)
  then show ?case by simp
next
  case (Branch l r)
  from Branch.prems(1) consider
    (L) q where "p = CHR ''0'' # q" "(a, q) \<in> set (paths l)"
  | (R) q where "p = CHR ''1'' # q" "(a, q) \<in> set (paths r)"
    by auto
  then show ?case
  proof cases
    case L
    then show ?thesis using Branch.IH(1)[of q] by (cases l) auto
  next
    case R
    then show ?thesis using Branch.IH(2)[of q] by (cases r) auto
  qed
qed

text \<open>A strict, non-empty beginning of a path ends inside the tree: nothing is emitted.\<close>

lemma tdecode_partial:
  "(a, p @ q) \<in> set (paths cur) \<Longrightarrow> q \<noteq> [] \<Longrightarrow>
   tdecode root p cur res = res"
proof (induction cur arbitrary: p)
  case (Leaf x)
  then show ?case by simp
next
  case (Branch l r)
  show ?case
  proof (cases p)
    case Nil
    then show ?thesis by simp
  next
    case (Cons b p')
    from Branch.prems(1) Cons consider
      (L) "b = CHR ''0''" "(a, p' @ q) \<in> set (paths l)"
    | (R) "b = CHR ''1''" "(a, p' @ q) \<in> set (paths r)"
      by auto
    then show ?thesis
    proof cases
      case L
      then show ?thesis using Branch.IH(1)[of p'] Branch.prems(2) Cons by (cases l) auto
    next
      case R
      then show ?thesis using Branch.IH(2)[of p'] Branch.prems(2) Cons by (cases r) auto
    qed
  qed
qed

subsection \<open>What the tree builder returns\<close>

text \<open>
  A round of the merge loop pops two nodes, and they are there when the heap has more
  than one. The loop ends with one node, proper if the nodes of the heap were, whose
  leaves carry the symbols of the heap.
\<close>

lemma merge_loop_step:
  assumes "length heap > 1"
  obtains node1 heap1 node2 heap2 where
    "heappop heap = Inr (node1, heap1)" "heappop heap1 = Inr (node2, heap2)"
    "merge_loop heap = merge_loop (heappush heap2 (merged_node node1 node2))"
proof -
  from assms have "heap \<noteq> []" by auto
  then obtain node1 heap1 where 1: "heappop heap = Inr (node1, heap1)"
    using heappop_nonempty by blast
  with assms have "heap1 \<noteq> []" using length_heappop[OF 1] by auto
  then obtain node2 heap2 where 2: "heappop heap1 = Inr (node2, heap2)"
    using heappop_nonempty by blast
  have "merge_loop heap = merge_loop (heappush heap2 (merged_node node1 node2))"
    using assms 1 2 by (subst merge_loop.simps) (simp add: merged_node_def)
  with 1 2 show thesis by (rule that)
qed

lemma merge_loop_stop: "length heap \<le> 1 \<Longrightarrow> merge_loop heap = Inr heap"
  by (subst merge_loop.simps) simp

lemma merge_loop_result:
  assumes "heap \<noteq> []" "\<forall>t\<in>set heap. proper t"
  shows "\<exists>t. merge_loop heap = Inr [t] \<and> proper t
           \<and> mset (leaves (shape t)) = symbols_of heap
           \<and> (length heap > 1 \<longrightarrow> is_branch (shape t))"
  using assms
proof (induction "length heap" arbitrary: heap rule: less_induct)
  case less
  show ?case
  proof (cases "length heap > 1")
    case False
    with less.prems obtain t where "heap = [t]" by (cases heap) auto
    then show ?thesis using less.prems by (simp add: merge_loop_stop symbols_of_def)
  next
    case True
    then obtain node1 heap1 node2 heap2 where
      p1: "heappop heap = Inr (node1, heap1)" and p2: "heappop heap1 = Inr (node2, heap2)" and
      step: "merge_loop heap = merge_loop (heappush heap2 (merged_node node1 node2))"
      by (rule merge_loop_step)
    let ?h = "heappush heap2 (merged_node node1 node2)"
    have m: "mset heap = add_mset node1 (add_mset node2 (mset heap2))"
      using mset_heappop[OF p1] mset_heappop[OF p2] by simp
    have m': "mset ?h = add_mset (merged_node node1 node2) (mset heap2)"
      by (simp add: mset_heappush)
    have "length ?h = Suc (length heap2)" by simp
    then have len: "length ?h < length heap" "?h \<noteq> []"
      using length_heappop[OF p1] length_heappop[OF p2] by (simp, fastforce)
    have "set heap = insert node1 (insert node2 (set heap2))"
      using arg_cong[OF m, of set_mset] by simp
    moreover have "set ?h = insert (merged_node node1 node2) (set heap2)"
      using arg_cong[OF m', of set_mset] by simp
    ultimately have pr: "\<forall>t\<in>set ?h. proper t"
      using less.prems(2) by (auto simp: merged_node_def)
    have sy: "symbols_of ?h = symbols_of heap"
      unfolding symbols_of_def m m' by (simp add: merged_node_def)
    from less.hyps[OF len(1) len(2) pr] obtain t where
      t: "merge_loop ?h = Inr [t]" "proper t" "mset (leaves (shape t)) = symbols_of ?h"
         "length ?h > 1 \<longrightarrow> is_branch (shape t)"
      by blast
    have "is_branch (shape t)"
    proof (cases "length ?h > 1")
      case True
      with t show ?thesis by simp
    next
      case False
      with len have "length ?h = 1" by (cases ?h) auto
      then have "?h = [merged_node node1 node2]"
        using m' by (cases ?h) auto
      then have "t = merged_node node1 node2" using t(1) by (simp add: merge_loop_stop)
      then show ?thesis by (simp add: merged_node_def)
    qed
    with t sy step show ?thesis by simp
  qed
qed

lemma symbols_of_leaf_nodes: "symbols_of (leaf_nodes ft) = mset (map fst ft)"
  by (induction ft) (auto simp: symbols_of_def leaf_nodes_def)

lemma build_huffman_tree_result:
  assumes "freq_table \<noteq> []"
  shows "\<exists>t. build_huffman_tree freq_table = Inr t \<and> proper t
           \<and> mset (leaves (shape t)) = mset (map fst freq_table)
           \<and> (length freq_table > 1 \<longrightarrow> is_branch (shape t))"
proof -
  let ?h = "heapify (leaf_nodes freq_table)"
  have ne: "?h \<noteq> []" using assms length_heapify[of "leaf_nodes freq_table"]
    by (auto simp: leaf_nodes_def simp del: length_heapify)
  have "set ?h = set (leaf_nodes freq_table)"
    using arg_cong[OF mset_heapify[of "leaf_nodes freq_table"], of set_mset] by simp
  then have pr: "\<forall>t\<in>set ?h. proper t" by (auto simp: leaf_nodes_def)
  have sy: "symbols_of ?h = mset (map fst freq_table)"
    using symbols_of_leaf_nodes[of freq_table] by (simp add: symbols_of_def mset_heapify)
  from merge_loop_result[OF ne pr] sy show ?thesis
    by (auto simp: build_huffman_tree_def leaf_nodes_def)
qed

subsection \<open>The frequency table, the encoder and the round trip on proper trees\<close>

lemma build_frequency_table_fold: "build_frequency_table tx = fold count_step tx []"
  by (simp add: build_frequency_table_def count_step_def[abs_def])

lemma fold_count_step_distinct:
  "distinct (map fst acc) \<Longrightarrow> distinct (map fst (fold count_step tx acc))"
  by (induction tx arbitrary: acc) (simp_all add: count_step_def distinct_update)

lemma fold_count_step_keys:
  "fst ` set (fold count_step tx acc) = fst ` set acc \<union> set tx"
  by (induction tx arbitrary: acc) (auto simp: count_step_def keys_update)

lemma fold_count_step_value:
  "map_of (fold count_step tx acc) c =
     (if c \<in> set tx \<or> map_of acc c \<noteq> None
      then Some ((case map_of acc c of None \<Rightarrow> 0 | Some n \<Rightarrow> n) + int (count_list tx c))
      else None)"
  by (induction tx arbitrary: acc) (auto simp: count_step_def update_conv' split: option.splits)

lemma build_frequency_table_distinct: "distinct (map fst (build_frequency_table tx))"
  by (simp add: build_frequency_table_fold fold_count_step_distinct)

lemma build_frequency_table_keys: "set (map fst (build_frequency_table tx)) = set tx"
  by (simp add: build_frequency_table_fold fold_count_step_keys)

lemma build_frequency_table_value:
  "map_of (build_frequency_table tx) c =
     (if c \<in> set tx then Some (int (count_list tx c)) else None)"
  by (simp add: build_frequency_table_fold fold_count_step_value)

lemma build_frequency_table_empty: "build_frequency_table tx = [] \<longleftrightarrow> tx = []"
  using build_frequency_table_keys[of tx] by (cases "build_frequency_table tx") auto

lemma encode_text_defined:
  "\<forall>c\<in>set tx. map_of codes (Some c) \<noteq> None \<Longrightarrow>
   encode_text tx codes = Inr (concat (map (\<lambda>c. the (map_of codes (Some c))) tx))"
  by (induction tx) auto

lemma encode_text_undefined:
  "\<exists>c\<in>set tx. map_of codes (Some c) = None \<Longrightarrow> encode_text tx codes = Inl KeyError"
proof (induction tx)
  case Nil
  then show ?case by simp
next
  case (Cons ch tx)
  show ?case
  proof (cases "map_of codes (Some ch)")
    case None
    then show ?thesis by simp
  next
    case (Some code)
    with Cons.prems have "\<exists>c\<in>set tx. map_of codes (Some c) = None" by auto
    from Cons.IH[OF this] Some show ?thesis by simp
  qed
qed

lemma leaves_nonempty: "leaves t \<noteq> []"
  by (induction t) simp_all

lemma is_branch_length: "is_branch t \<longleftrightarrow> length (leaves t) > 1"
proof (cases t)
  case (Leaf a)
  then show ?thesis by simp
next
  case (Branch l r)
  have "length (leaves l) > 0" "length (leaves r) > 0" using leaves_nonempty by auto
  then have "length (leaves l) + length (leaves r) > 1" by linarith
  with Branch show ?thesis by simp
qed

lemma tdecode_concat:
  assumes "is_branch root" "\<forall>c\<in>set S. (c, code c) \<in> set (paths root)"
  shows "tdecode root (concat (map code S) @ rest) root res = tdecode root rest root (res @ S)"
  using assms(2)
proof (induction S arbitrary: res)
  case Nil
  show ?case by simp
next
  case (Cons c S)
  then have "(c, code c) \<in> set (paths root)" by simp
  from tdecode_path[OF this assms(1)] Cons show ?case by simp
qed

lemma roundtrip_proper:
  assumes "proper t" "distinct (leaves (shape t))" "set S \<subseteq> set (leaves (shape t))"
  shows "\<exists>codes enc. generate_codes_call shared t = (codes, None)
           \<and> encode_text S codes = Inr enc \<and> decode_text enc t = Inr S"
  using assms(1)
proof (cases t rule: proper_cases)
  case (leaf a f)
  let ?codes = "AList.update (Some a) ''0'' shared"
  have g: "generate_codes_call shared t = (?codes, None)"
    using leaf by (simp add: generate_codes_call_def)
  have S: "S = replicate (length S) a"
    using assms(3) leaf by (simp add: replicate_length_same subset_iff)
  have v: "\<forall>c\<in>set S. map_of ?codes (Some c) = Some ''0''"
    using assms(3) leaf by (auto simp: update_conv')
  then have ne: "\<forall>c\<in>set S. map_of ?codes (Some c) \<noteq> None" by simp
  have meq: "map (\<lambda>c. the (map_of ?codes (Some c))) S = map (\<lambda>c. ''0'') S"
    using v by (intro map_cong) simp_all
  have e: "encode_text S ?codes = Inr (concat (map (\<lambda>c. ''0'') S))"
    unfolding encode_text_defined[OF ne] meq ..
  have "length (concat (map (\<lambda>c. ''0'') S)) = length S" by (induction S) simp_all
  then have "decode_text (concat (map (\<lambda>c. ''0'') S)) t = Inr S"
    using leaf S by (simp add: decode_text_def)
  with g e show ?thesis by blast
next
  case (branch f l r)
  let ?root = "shape t"
  let ?codes = "store (paths ?root) shared"
  have br: "is_branch ?root" using branch by simp
  have g: "generate_codes_call shared t = (?codes, None)"
    using assms(1) branch walk_Branch[of "shape l" "shape r"]
    by (simp add: generate_codes_call_def generate_codes_proper del: generate_codes.simps walk.simps paths.simps)
  define code where "code c = the (map_of ?codes (Some c))" for c
  have d: "distinct (map fst (paths ?root))" using assms(2) by simp
  have look: "(c, p) \<in> set (paths ?root) \<Longrightarrow> map_of ?codes (Some c) = Some p" for c p
    using map_of_store[OF d] by blast
  have cov: "\<forall>c\<in>set S. (c, code c) \<in> set (paths ?root)"
  proof
    fix c assume "c \<in> set S"
    with assms(3) have "c \<in> fst ` set (paths ?root)"
      using map_fst_paths[of ?root] by (metis set_map subsetD)
    then obtain p where "(c, p) \<in> set (paths ?root)" by auto
    with look[OF this] show "(c, code c) \<in> set (paths ?root)" by (simp add: code_def)
  qed
  then have "\<forall>c\<in>set S. map_of ?codes (Some c) \<noteq> None" using look by force
  then have e: "encode_text S ?codes = Inr (concat (map code S))"
    by (simp add: encode_text_defined code_def[abs_def])
  have "decode_text (concat (map code S)) t = Inr S"
    using tdecode_concat[OF br cov, of "[]" "[]"] assms(1) br
    by (simp add: decode_text_proper)
  with g e show ?thesis by blast
qed

subsection \<open>Code tables of proper trees\<close>

lemma update_new_key:
  "k \<notin> fst ` set al \<Longrightarrow> AList.update k v al = al @ [(k, v)]"
  by (induction al) auto

lemma store_fresh:
  "distinct (map fst es) \<Longrightarrow> fst ` set codes \<inter> Some ` fst ` set es = {} \<Longrightarrow>
   store es codes = codes @ map (\<lambda>(a, p). (Some a, p)) es"
proof (induction es arbitrary: codes)
  case Nil
  show ?case by simp
next
  case (Cons e es)
  obtain a p where e: "e = (a, p)" by (cases e)
  have new: "Some a \<notin> fst ` set codes" using Cons.prems(2) e by auto
  have "fst ` set (codes @ [(Some a, p)]) \<inter> Some ` fst ` set es = {}"
    using Cons.prems e by (auto simp: image_iff)
  with Cons.IH[of "codes @ [(Some a, p)]"] Cons.prems(1) e new show ?case
    by (simp add: update_new_key)
qed

lemma map_of_store_member:
  "a \<in> fst ` set es \<Longrightarrow> map_of (store es codes) (Some a) = Some p \<Longrightarrow> (a, p) \<in> set es"
proof (induction es arbitrary: codes)
  case Nil
  then show ?case by simp
next
  case (Cons e es)
  obtain b q where e: "e = (b, q)" by (cases e)
  show ?case
  proof (cases "a \<in> fst ` set es")
    case True
    from Cons.IH[OF True] Cons.prems(2) e show ?thesis by simp
  next
    case False
    then have "Some a \<notin> Some ` fst ` set es" by auto
    with Cons.prems e False show ?thesis
      by (auto simp: map_of_store_other update_conv')
  qed
qed

lemma paths_prefix:
  "(a, p) \<in> set (paths t) \<Longrightarrow> (b, q) \<in> set (paths t) \<Longrightarrow> prefix p q \<Longrightarrow> p = q"
  by (induction t arbitrary: p q) auto

lemma paths_same_code:
  "distinct (leaves t) \<Longrightarrow> (a, p) \<in> set (paths t) \<Longrightarrow> (b, p) \<in> set (paths t) \<Longrightarrow> a = b"
proof (induction t arbitrary: p)
  case (Leaf x)
  then show ?case by simp
next
  case (Branch l r)
  then show ?case by (cases p) auto
qed

lemma paths_nonempty: "is_branch t \<Longrightarrow> (a, p) \<in> set (paths t) \<Longrightarrow> p \<noteq> []"
  by (cases t) auto

subsection \<open>Trees built from a dictionary\<close>

text \<open>
  For a table with distinct keys the leaves of the built tree are these keys, each
  once; the tree is a single leaf exactly when the table has one entry.
\<close>

lemma build_huffman_tree_distinct:
  assumes "freq_table \<noteq> []" "distinct (map fst freq_table)"
  obtains t where "build_huffman_tree freq_table = Inr t" "proper t"
    "distinct (leaves (shape t))" "set (leaves (shape t)) = fst ` set freq_table"
    "is_branch (shape t) \<longleftrightarrow> length freq_table > 1"
proof -
  from build_huffman_tree_result[OF assms(1)] obtain t where
    t: "build_huffman_tree freq_table = Inr t" "proper t"
       "mset (leaves (shape t)) = mset (map fst freq_table)"
    by blast
  have "distinct (leaves (shape t))"
    using t(3) assms(2) by (metis mset_eq_imp_distinct_iff)
  moreover have "set (leaves (shape t)) = fst ` set freq_table"
    using arg_cong[OF t(3), of set_mset] by simp
  moreover have "length (leaves (shape t)) = length freq_table"
    using arg_cong[OF t(3), of size] by simp
  then have "is_branch (shape t) \<longleftrightarrow> length freq_table > 1"
    by (simp add: is_branch_length)
  ultimately show thesis using t that by blast
qed

text \<open>
  One round of the decoding loop on a character other than \<open>0\<close>: the \<open>else\<close> branch,
  \<^verbatim>\<open>current = current.right\<close>.
\<close>

lemma decode_loop_right_step:
  "b \<noteq> CHR ''0'' \<Longrightarrow>
   decode_loop root (b # rest) current result =
     (case right current of
        None \<Rightarrow> Inl AttributeError
      | Some n \<Rightarrow>
          (case char n of
             Some c \<Rightarrow> decode_loop root rest root (result @ [c])
           | None \<Rightarrow> decode_loop root rest n result))"
  by simp

text \<open>The decoding loop asks of a character only whether it is \<open>0\<close>.\<close>

lemma decode_loop_other_char:
  "decode_loop root (map (\<lambda>b. if b = CHR ''0'' then CHR ''0'' else CHR ''1'') bits) cur res
   = decode_loop root bits cur res"
  by (induction bits arbitrary: cur res) (simp_all split: option.splits)

lemma proper_branch_iff: "proper t \<Longrightarrow> is_branch (shape t) \<longleftrightarrow> left t \<noteq> None"
  by (cases t rule: proper_cases) auto

subsection \<open>The functions of the second module\<close>

lemma merge_loop2_eq: "merge_loop2 heap = merge_loop heap"
proof (induction heap rule: merge_loop.induct)
  case (1 heap)
  show ?case
  proof (cases "length heap > 1")
    case False
    then show ?thesis by (subst merge_loop2.simps, subst merge_loop.simps) simp
  next
    case True
    then obtain node1 heap1 node2 heap2 where
      p: "heappop heap = Inr (node1, heap1)" "heappop heap1 = Inr (node2, heap2)"
      by (rule merge_loop_step)
    from 1[OF True p(1) refl p(2) refl refl] True p show ?thesis
      by (subst merge_loop2.simps, subst merge_loop.simps) simp
  qed
qed

lemma generate_codes2_eq: "generate_codes2 t cur codes = generate_codes t cur codes"
proof (induction t arbitrary: cur codes)
  case (Node c f l r)
  show ?case
  proof (cases l)
    case None
    then show ?thesis by (simp add: Let_def)
  next
    case L: (Some root_left)
    then have IH1: "generate_codes2 root_left cur' codes' = generate_codes root_left cur' codes'"
      for cur' codes' using Node(1) by simp
    show ?thesis
    proof (cases r)
      case None
      with L IH1 show ?thesis by (simp add: Let_def)
    next
      case R: (Some root_right)
      then have IH2: "generate_codes2 root_right cur' codes' = generate_codes root_right cur' codes'"
        for cur' codes' using Node(2) by simp
      from L R IH1 IH2 show ?thesis by (simp add: Let_def)
    qed
  qed
qed

lemma encode_text2_eq: "encode_text2 tx codes = encode_text tx codes"
  by (induction tx) (simp_all split: option.splits)

lemma decode_loop2_eq: "decode_loop2 root bits cur res = decode_loop root bits cur res"
proof (induction bits arbitrary: cur res)
  case Nil
  show ?case by simp
next
  case (Cons b bits)
  show ?case
    by (cases "if b = CHR ''0'' then left cur else right cur")
       (simp_all add: Cons Let_def split: option.splits)
qed

text \<open>
  In \<open>HuffmanAlgorithm2.py\<close> a top-level call has no state: on a proper tree it returns
  exactly the entries of the tree's symbols.
\<close>

lemma generate_codes2_call_keys:
  assumes "proper t"
  shows "\<exists>codes. generate_codes2_call t = (codes, None)
      \<and> fst ` set codes = Some ` set (leaves (shape t))"
proof -
  have "generate_codes2 t [] None = generate_codes t [] (Some [])"
    unfolding generate_codes2_eq by (cases t) simp
  then have "generate_codes2_call t = (store (walk (shape t) []) [], None)"
    using assms by (simp add: generate_codes2_call_def generate_codes_proper)
  moreover have "fst ` set (walk (shape t) []) = set (leaves (shape t))"
    using map_fst_walk[of "shape t" "[]"] by (metis set_map)
  ultimately show ?thesis using keys_store[of "walk (shape t) []" "[]"] by simp
qed

subsection \<open>The heap order\<close>

lemma parent_simps [simp]: "parent (2 * p + 1) = p" "parent (2 * p + 2) = p"
  "parent (Suc (2 * p)) = p" "parent (Suc (Suc (2 * p))) = p"
  by (simp_all add: parent_def)

lemma child_cases: "0 < j \<Longrightarrow> parent j = p \<Longrightarrow> j = 2 * p + 1 \<or> j = 2 * p + 2"
  unfolding parent_def by presburger

lemma parent_less: "0 < j \<Longrightarrow> parent j < j"
  unfolding parent_def by presburger

lemma below_ge: "below k p \<Longrightarrow> k \<le> p"
  by (induction rule: below.induct) auto

lemma below_parent: "below k p \<Longrightarrow> k < p \<Longrightarrow> below k (parent p) \<and> 0 < p"
  by (induction rule: below.induct) auto

lemma hole_invD1:
  "hole_inv k h pos \<Longrightarrow> j < length h \<Longrightarrow> 0 < j \<Longrightarrow> k \<le> parent j \<Longrightarrow> j \<noteq> pos \<Longrightarrow>
   parent j \<noteq> pos \<Longrightarrow> freq (h ! parent j) \<le> freq (h ! j)"
  by (simp add: hole_inv_def)

lemma hole_invD2:
  "hole_inv k h pos \<Longrightarrow> k < pos \<Longrightarrow> j < length h \<Longrightarrow> 0 < j \<Longrightarrow> parent j = pos \<Longrightarrow>
   freq (h ! parent pos) \<le> freq (h ! j)"
  by (simp add: hole_inv_def)

lemma hole_invI:
  assumes "\<And>j. j < length h \<Longrightarrow> 0 < j \<Longrightarrow> k \<le> parent j \<Longrightarrow> j \<noteq> pos \<Longrightarrow> parent j \<noteq> pos
             \<Longrightarrow> freq (h ! parent j) \<le> freq (h ! j)"
    and "\<And>j. k < pos \<Longrightarrow> j < length h \<Longrightarrow> 0 < j \<Longrightarrow> parent j = pos
             \<Longrightarrow> freq (h ! parent pos) \<le> freq (h ! j)"
  shows "hole_inv k h pos"
  using assms by (simp add: hole_inv_def)

lemma pick_child_spec:
  assumes "2 * pos + 1 < length h"
  defines "c \<equiv> pick_child h (length h) (2 * pos + 1)"
  shows "(c = 2 * pos + 1 \<or> c = 2 * pos + 2) \<and> c < length h \<and>
      (\<forall>j<length h. 0 < j \<and> parent j = pos \<longrightarrow> freq (h ! c) \<le> freq (h ! j))"
proof (cases "2 * pos + 2 < length h \<and> \<not> freq (h ! (2 * pos + 1)) < freq (h ! (2 * pos + 2))")
  case True
  then have c: "c = 2 * pos + 2" by (simp add: c_def pick_child_def node_lt_def)
  have "freq (h ! c) \<le> freq (h ! j)" if "0 < j" "parent j = pos" for j
    using child_cases[OF that] True c by auto
  with c True show ?thesis by simp
next
  case False
  then have c: "c = 2 * pos + 1" by (auto simp: c_def pick_child_def node_lt_def)
  have "freq (h ! c) \<le> freq (h ! j)" if "0 < j" "parent j = pos" "j < length h" for j
    using child_cases[OF that(1,2)] False c that(3) by auto
  with c assms(1) show ?thesis by simp
qed

lemma hole_inv_down:
  assumes inv: "hole_inv k h pos" and bel: "below k pos" and c: "2 * pos + 1 < length h"
  defines "c \<equiv> pick_child h (length h) (2 * pos + 1)"
  shows "hole_inv k (h[pos := h ! c]) c \<and> below k c \<and> c < length h"
proof -
  have kp: "k \<le> pos" using bel by (rule below_ge)
  have cc: "(c = 2 * pos + 1 \<or> c = 2 * pos + 2) \<and> c < length h \<and>
      (\<forall>j<length h. 0 < j \<and> parent j = pos \<longrightarrow> freq (h ! c) \<le> freq (h ! j))"
    unfolding c_def using c by (rule pick_child_spec)
  then have pc: "parent c = pos" "0 < c" "c \<noteq> pos" "pos < c" by auto
  have bc: "below k c" using cc bel below_left below_right by metis
  let ?h = "h[pos := h ! c]"
  have pos_len: "pos < length h" using c by simp
  have small: "freq (h ! c) \<le> freq (h ! j)" if "j < length h" "0 < j" "parent j = pos" for j
    using cc that by blast
  show ?thesis
  proof (intro conjI hole_invI)
    fix j
    assume j: "j < length ?h" "0 < j" "k \<le> parent j" "j \<noteq> c" "parent j \<noteq> c"
    show "freq (?h ! parent j) \<le> freq (?h ! j)"
    proof (cases "j = pos")
      case True
      then have "k < pos" using j(2,3) parent_less[of j] by simp
      from hole_invD2[OF inv this _ pc(2,1)] cc
      have "freq (h ! parent pos) \<le> freq (h ! c)" by simp
      moreover have "parent pos \<noteq> pos" using True j(2) parent_less[of pos] by simp
      ultimately show ?thesis using True pos_len by simp
    next
      case False
      show ?thesis
      proof (cases "parent j = pos")
        case True
        then have "freq (h ! c) \<le> freq (h ! j)" using small j by simp
        then show ?thesis using True False pos_len by simp
      next
        case F2: False
        from hole_invD1[OF inv _ j(2,3) False F2] j(1)
        have "freq (h ! parent j) \<le> freq (h ! j)" by simp
        then show ?thesis using False F2 by simp
      qed
    qed
  next
    fix j
    assume j: "k < c" "j < length ?h" "0 < j" "parent j = c"
    have np: "j \<noteq> pos" "parent j \<noteq> pos" using j pc parent_less[of j] by auto
    moreover have "k \<le> parent j" using j kp pc by simp
    ultimately have "freq (h ! c) \<le> freq (h ! j)"
      using hole_invD1[OF inv _ j(3), of ] j by simp
    then show "freq (?h ! parent c) \<le> freq (?h ! j)" using pc pos_len np by simp
  next
    show "below k c" by (rule bc)
  next
    show "c < length h" using cc by simp
  qed
qed

lemma siftup_loop_inv:
  "siftup_loop h endpos pos childpos = (h', pos') \<Longrightarrow> endpos = length h \<Longrightarrow>
   childpos = 2 * pos + 1 \<Longrightarrow> hole_inv k h pos \<Longrightarrow> below k pos \<Longrightarrow> pos < length h \<Longrightarrow>
   hole_inv k h' pos' \<and> below k pos' \<and> pos' < length h' \<and> length h' = length h
   \<and> length h' \<le> 2 * pos' + 1"
proof (induction h endpos pos childpos arbitrary: h' pos' rule: siftup_loop_induct)
  case (1 h endpos pos childpos)
  show ?case
  proof (cases "childpos < endpos")
    case False
    with 1(2-) show ?thesis by (subst (asm) siftup_loop_unfold) auto
  next
    case True
    define c where "c = pick_child h (length h) (2 * pos + 1)"
    from True 1(3,4) have ch: "2 * pos + 1 < length h" by simp
    from hole_inv_down[OF 1(5,6) ch]
    have d: "hole_inv k (h[pos := h ! c]) c" "below k c" "c < length h"
      by (simp_all add: c_def)
    have step: "siftup_loop (h[pos := h ! c]) endpos c (2 * c + 1) = (h', pos')"
      using 1(2) True 1(3,4) by (subst (asm) siftup_loop_unfold) (simp add: c_def)
    have "hole_inv k h' pos' \<and> below k pos' \<and> pos' < length h'
        \<and> length h' = length (h[pos := h ! c]) \<and> length h' \<le> 2 * pos' + 1"
      using 1(1)[OF True, of h' pos' ] step d 1(3,4) unfolding c_def by simp
    then show ?thesis by simp
  qed
qed

lemma hole_inv_up:
  assumes inv: "hole_inv k h pos" and bel: "below k pos" and kp: "k < pos"
    and len: "pos < length h"
    and J3: "\<And>j. j < length h \<Longrightarrow> 0 < j \<Longrightarrow> parent j = pos \<Longrightarrow> freq newitem \<le> freq (h ! j)"
    and lt: "freq newitem < freq (h ! parent pos)"
  shows "hole_inv k (h[pos := h ! parent pos]) (parent pos)"
    and "\<And>j. j < length h \<Longrightarrow> 0 < j \<Longrightarrow> parent j = parent pos
           \<Longrightarrow> freq newitem \<le> freq ((h[pos := h ! parent pos]) ! j)"
proof -
  let ?pp = "parent pos"
  let ?h = "h[pos := h ! ?pp]"
  from below_parent[OF bel kp] have bp: "below k ?pp" "0 < pos" by auto
  then have kpp: "k \<le> ?pp" using below_ge by blast
  have ppl: "?pp < pos" using bp(2) by (rule parent_less)
  show "hole_inv k ?h ?pp"
  proof (rule hole_invI)
    fix j
    assume j: "j < length ?h" "0 < j" "k \<le> parent j" "j \<noteq> ?pp" "parent j \<noteq> ?pp"
    then have jp: "j \<noteq> pos" by auto
    show "freq (?h ! parent j) \<le> freq (?h ! j)"
    proof (cases "parent j = pos")
      case True
      from hole_invD2[OF inv kp _ j(2) True] j(1)
      have "freq (h ! ?pp) \<le> freq (h ! j)" by simp
      then show ?thesis using True jp len by simp
    next
      case False
      from hole_invD1[OF inv _ j(2,3) jp False] j(1)
      show ?thesis using False jp by simp
    qed
  next
    fix j
    assume j: "k < ?pp" "j < length ?h" "0 < j" "parent j = ?pp"
    have b2: "below k (parent ?pp)" "0 < ?pp" using below_parent[OF bp(1) j(1)] by auto
    then have k2: "k \<le> parent ?pp" using below_ge by blast
    have p2: "parent ?pp < ?pp" using b2(2) by (rule parent_less)
    have up: "freq (h ! parent ?pp) \<le> freq (h ! ?pp)"
      using hole_invD1[OF inv _ b2(2) k2] ppl p2 len by simp
    have "freq (h ! parent ?pp) \<le> freq (?h ! j)"
    proof (cases "j = pos")
      case True
      with up len show ?thesis by simp
    next
      case False
      from hole_invD1[OF inv _ j(3) _ False] j kpp ppl
      have "freq (h ! ?pp) \<le> freq (h ! j)" by simp
      with up False show ?thesis by simp
    qed
    moreover have "parent ?pp \<noteq> pos" using p2 ppl by simp
    ultimately show "freq (?h ! parent ?pp) \<le> freq (?h ! j)" by simp
  qed
  show "freq newitem \<le> freq (?h ! j)" if j: "j < length h" "0 < j" "parent j = ?pp" for j
  proof (cases "j = pos")
    case True
    with lt len show ?thesis by simp
  next
    case False
    from hole_invD1[OF inv j(1,2) _ False] j(3) kpp ppl
    have "freq (h ! ?pp) \<le> freq (h ! j)" by simp
    with lt False show ?thesis by simp
  qed
qed

lemma siftdown_loop_ok:
  "hole_inv k h pos \<Longrightarrow> below k pos \<Longrightarrow> pos < length h \<Longrightarrow>
   (\<And>j. j < length h \<Longrightarrow> 0 < j \<Longrightarrow> parent j = pos \<Longrightarrow> freq newitem \<le> freq (h ! j)) \<Longrightarrow>
   ok_from k (siftdown_loop h newitem k pos)"
proof (induction h newitem k pos rule: siftdown_loop.induct)
  case (1 heap newitem startpos pos)
  let ?pp = "parent pos"
  show ?case
  proof (cases "pos > startpos \<and> node_lt newitem (heap ! ?pp)")
    case True
    then have lt: "freq newitem < freq (heap ! ?pp)" by (simp add: node_lt_def)
    from True have kp: "startpos < pos" by simp
    note up = hole_inv_up[OF 1(2,3) kp 1(4) 1(5) lt]
    have bp: "below startpos ?pp" "0 < pos" using below_parent[OF 1(3) kp] by auto
    have "?pp < length (heap[pos := heap ! ?pp])" using parent_less[OF bp(2)] 1(4) by simp
    from 1(1)[OF kp refl refl _ _ bp(1)[unfolded parent_def], folded parent_def, OF _ up(1) this]
      True up(2)
    have "ok_from startpos (siftdown_loop (heap[pos := heap ! ?pp]) newitem startpos ?pp)"
      by (simp add: parent_def)
    then show ?thesis
      using True by (subst siftdown_loop.simps) (simp add: Let_def parent_def)
  next
    case False
    have eq: "siftdown_loop heap newitem startpos pos = heap[pos := newitem]"
      using False by (subst siftdown_loop.simps) (auto simp: Let_def parent_def)
    have "freq ((heap[pos := newitem]) ! parent j) \<le> freq ((heap[pos := newitem]) ! j)"
      if j: "j < length heap" "0 < j" "startpos \<le> parent j" for j
    proof (cases "j = pos")
      case True
      then have "startpos < pos" using j parent_less[of j] by simp
      with False have "freq (heap ! ?pp) \<le> freq newitem" by (simp add: node_lt_def)
      moreover have "?pp \<noteq> pos" using True j parent_less[of j] by simp
      ultimately show ?thesis using True 1(4) by simp
    next
      case F: False
      show ?thesis
      proof (cases "parent j = pos")
        case True
        from 1(5)[OF j(1,2) True] True F 1(4) show ?thesis by simp
      next
        case F2: False
        from hole_invD1[OF 1(2) j F F2] F F2 show ?thesis by simp
      qed
    qed
    then show ?thesis unfolding eq ok_from_def by simp
  qed
qed

lemma hole_inv_update: "hole_inv k h pos \<Longrightarrow> hole_inv k (h[pos := x]) pos"
proof (rule hole_invI)
  fix j
  assume inv: "hole_inv k h pos"
    and j: "j < length (h[pos := x])" "0 < j" "k \<le> parent j" "j \<noteq> pos" "parent j \<noteq> pos"
  from hole_invD1[OF inv _ j(2-5)] j(1,4,5)
  show "freq (h[pos := x] ! parent j) \<le> freq (h[pos := x] ! j)" by simp
next
  fix j
  assume inv: "hole_inv k h pos"
    and j: "k < pos" "j < length (h[pos := x])" "0 < j" "parent j = pos"
  have "j \<noteq> pos" "parent pos \<noteq> pos" using j parent_less[of j] parent_less[of pos] by auto
  with hole_invD2[OF inv j(1) _ j(3,4)] j(2)
  show "freq (h[pos := x] ! parent pos) \<le> freq (h[pos := x] ! j)" by simp
qed

lemma ok_from_siftup:
  assumes "ok_from (Suc k) h" "k < length h"
  shows "ok_from k (siftup h k)"
proof -
  obtain h' pos' where s: "siftup_loop h (length h) k (2 * k + 1) = (h', pos')" by force
  have "hole_inv k h k" using assms(1) unfolding hole_inv_def ok_from_def
    by (auto simp: Suc_le_eq le_less)
  from siftup_loop_inv[OF s refl refl this below_refl assms(2)]
  have r: "hole_inv k h' pos'" "below k pos'" "pos' < length h'" "length h' \<le> 2 * pos' + 1"
    by simp_all
  let ?g = "h'[pos' := h ! k]"
  have "ok_from k (siftdown_loop ?g (h ! k) k pos')"
  proof (rule siftdown_loop_ok)
    show "hole_inv k ?g pos'" using r(1) by (simp add: hole_inv_update)
    show "below k pos'" by (rule r(2))
    show "pos' < length ?g" using r(3) by simp
    fix j assume "j < length ?g" "0 < j" "parent j = pos'"
    with r(4) child_cases[of j pos'] show "freq (h ! k) \<le> freq (?g ! j)" by auto
  qed
  then show ?thesis using s r(3) by (simp add: siftup_def siftdown_def Let_def)
qed

lemma below_zero: "below 0 n"
proof (induction n rule: less_induct)
  case (less n)
  show ?case
  proof (cases "n = 0")
    case True
    then show ?thesis by (simp add: below_refl)
  next
    case False
    then have "below 0 (parent n)" using less parent_less[of n] by simp
    moreover have "n = 2 * parent n + 1 \<or> n = 2 * parent n + 2"
      using False child_cases[of n "parent n"] by simp
    ultimately show ?thesis using below_left below_right by metis
  qed
qed

lemma is_heap_heappush: "is_heap heap \<Longrightarrow> is_heap (heappush heap item)"
proof -
  assume h: "is_heap heap"
  let ?n = "length heap"
  let ?g = "heap @ [item]"
  have "ok_from 0 (siftdown_loop ?g item 0 ?n)"
  proof (rule siftdown_loop_ok)
    show "hole_inv 0 ?g ?n"
    proof (rule hole_invI)
      fix j assume j: "j < length ?g" "0 < j" "j \<noteq> ?n"
      then have "j < ?n" "parent j < ?n" using parent_less[of j] by auto
      then show "freq (?g ! parent j) \<le> freq (?g ! j)"
        using h j(2) by (simp add: is_heap_def ok_from_def nth_append)
    next
      fix j assume "j < length ?g" "0 < j" "parent j = ?n"
      then show "freq (?g ! parent ?n) \<le> freq (?g ! j)"
        using child_cases[of j ?n] by auto
    qed
    show "below 0 ?n" by (rule below_zero)
    show "?n < length ?g" by simp
    fix j assume "j < length ?g" "0 < j" "parent j = ?n"
    then show "freq item \<le> freq (?g ! j)" using child_cases[of j ?n] by auto
  qed
  then show ?thesis by (simp add: is_heap_def heappush_def siftdown_def)
qed

lemma is_heap_heappop:
  assumes "is_heap heap" "heappop heap = Inr (item, heap')"
  shows "is_heap heap'" and "item = heap ! 0"
proof -
  from assms(2) have ne: "heap \<noteq> []" by (auto simp: heappop_def)
  show "item = heap ! 0"
    using assms(2) ne
    by (cases heap rule: rev_cases; cases "butlast heap")
       (auto simp: heappop_def Let_def nth_append split: if_splits)
  show "is_heap heap'"
  proof (cases "butlast heap = []")
    case True
    with assms(2) ne have "heap' = []" by (simp add: heappop_def Let_def)
    then show ?thesis by (simp add: is_heap_def ok_from_def)
  next
    case False
    let ?g = "(butlast heap)[0 := last heap]"
    from assms(2) ne False have h': "heap' = siftup ?g 0" by (simp add: heappop_def Let_def)
    have "ok_from (Suc 0) ?g"
      unfolding ok_from_def
    proof (intro allI impI)
      fix j assume j: "j < length ?g" "0 < j \<and> Suc 0 \<le> parent j"
      then have "j < length heap" "j \<noteq> 0" "parent j \<noteq> 0" "parent j < length heap - 1"
        using parent_less[of j] by auto
      then show "freq (?g ! parent j) \<le> freq (?g ! j)"
        using assms(1) j by (simp add: is_heap_def ok_from_def nth_butlast)
    qed
    moreover have "0 < length ?g" using False by (cases "butlast heap") simp_all
    ultimately show ?thesis unfolding h' is_heap_def by (rule ok_from_siftup)
  qed
qed

lemma is_heap_heapify: "is_heap (heapify x)"
proof -
  have "ok_from m y \<Longrightarrow> m \<le> length y \<Longrightarrow>
        ok_from 0 (fold (\<lambda>i heap. siftup heap i) (rev [0 ..< m]) y)" for m and y :: "'a node list"
  proof (induction m arbitrary: y)
    case 0
    then show ?case by simp
  next
    case (Suc m)
    from Suc.prems have "ok_from m (siftup y m)" by (intro ok_from_siftup) simp_all
    from Suc.IH[OF this] Suc.prems(2) show ?case by simp
  qed
  moreover have "ok_from (length x div 2) x"
    unfolding ok_from_def parent_def by (intro allI impI) presburger
  ultimately show ?thesis by (simp add: heapify_def is_heap_def)
qed

lemma is_heap_min:
  assumes "is_heap h" "j < length h"
  shows "freq (h ! 0) \<le> freq (h ! j)"
  using assms(2)
proof (induction j rule: less_induct)
  case (less j)
  show ?case
  proof (cases "j = 0")
    case True
    then show ?thesis by simp
  next
    case False
    then have p: "parent j < j" using parent_less by simp
    with less have "freq (h ! 0) \<le> freq (h ! parent j)" by simp
    moreover have "freq (h ! parent j) \<le> freq (h ! j)"
      using assms(1) less.prems False by (simp add: is_heap_def ok_from_def)
    ultimately show ?thesis by simp
  qed
qed

lemma heappop_min:
  assumes "is_heap heap" "heappop heap = Inr (item, heap')" "x \<in> set heap"
  shows "freq item \<le> freq x"
proof -
  from assms(3) obtain j where "j < length heap" "x = heap ! j" by (auto simp: in_set_conv_nth)
  with is_heap_min[OF assms(1)] is_heap_heappop(2)[OF assms(1,2)] show ?thesis by simp
qed

subsection \<open>The heap functions and maps that keep the frequency\<close>

text \<open>
  The heap functions look at nothing but the frequencies: they commute with every
  function on nodes that keeps the frequency.
\<close>

lemma siftdown_loop_map:
  assumes g: "\<And>x. freq (g x) = freq x"
  shows "pos < length h \<Longrightarrow>
    siftdown_loop (map g h) (g n) s pos = map g (siftdown_loop h n s pos)"
proof (induction h n s pos rule: siftdown_loop.induct)
  case (1 heap newitem startpos pos)
  let ?pp = "(pos - 1) div 2"
  show ?case
  proof (cases "pos > startpos")
    case False
    then show ?thesis
      by (subst siftdown_loop.simps, subst (2) siftdown_loop.simps) (simp add: map_update)
  next
    case True
    then have pp: "?pp < length heap" using 1(2) by simp
    have lt: "node_lt (g newitem) (map g heap ! ?pp) = node_lt newitem (heap ! ?pp)"
      using pp by (simp add: node_lt_def g)
    show ?thesis
    proof (cases "node_lt newitem (heap ! ?pp)")
      case False
      with True lt show ?thesis
        by (subst siftdown_loop.simps, subst (2) siftdown_loop.simps)
           (simp add: map_update Let_def)
    next
      case lt': True
      have "siftdown_loop (map g (heap[pos := heap ! ?pp])) (g newitem) startpos ?pp
          = map g (siftdown_loop (heap[pos := heap ! ?pp]) newitem startpos ?pp)"
        using 1(1)[OF True refl refl lt'] pp by simp
      with True lt lt' pp show ?thesis
        by (subst siftdown_loop.simps, subst (2) siftdown_loop.simps)
           (simp add: map_update Let_def)
    qed
  qed
qed

lemma pick_child_map:
  assumes g: "\<And>x. freq (g x) = freq x"
  shows "endpos \<le> length h \<Longrightarrow> pick_child (map g h) endpos c = pick_child h endpos c"
  by (auto simp: pick_child_def node_lt_def g)

lemma siftup_loop_map:
  assumes g: "\<And>x. freq (g x) = freq x"
  shows "endpos \<le> length h \<Longrightarrow>
    siftup_loop (map g h) endpos pos childpos
      = (map g (fst (siftup_loop h endpos pos childpos)), snd (siftup_loop h endpos pos childpos))"
proof (induction h endpos pos childpos rule: siftup_loop_induct)
  case (1 h endpos pos childpos)
  show ?case
  proof (cases "childpos < endpos")
    case False
    then show ?thesis by (subst siftup_loop_unfold, subst (2 3) siftup_loop_unfold) simp
  next
    case True
    let ?c = "pick_child h endpos childpos"
    have c: "?c < length h" using pick_child_bounds[OF True, of h] 1(2) by simp
    have pc: "pick_child (map g h) endpos childpos = ?c"
      using 1(2) by (rule pick_child_map[OF g])
    from 1(1)[OF True] 1(2) have IH:
      "siftup_loop ((map g h)[pos := g (h ! ?c)]) endpos ?c (2 * ?c + 1)
        = (map g (fst (siftup_loop (h[pos := h ! ?c]) endpos ?c (2 * ?c + 1))),
           snd (siftup_loop (h[pos := h ! ?c]) endpos ?c (2 * ?c + 1)))"
      by (simp add: map_update)
    show ?thesis
      using True c IH
      by (subst siftup_loop_unfold, subst (2 3) siftup_loop_unfold)
         (simp add: pc)
  qed
qed

lemma siftup_map:
  assumes g: "\<And>x. freq (g x) = freq x" and "pos < length h"
  shows "siftup (map g h) pos = map g (siftup h pos)"
proof -
  obtain h' pos' where s: "siftup_loop h (length h) pos (2 * pos + 1) = (h', pos')" by force
  from siftup_loop_hole[OF assms(2) _ _ s] have p: "pos' < length h'" by simp
  have s': "siftup_loop (map g h) (length h) pos (2 * pos + 1) = (map g h', pos')"
    using siftup_loop_map[OF g, of "length h" h pos "2 * pos + 1"] s by simp
  have "siftdown ((map g h')[pos' := g (h ! pos)]) pos pos'
      = map g (siftdown (h'[pos' := h ! pos]) pos pos')"
    unfolding siftdown_def using p siftdown_loop_map[OF g, of pos' "h'[pos' := h ! pos]" "h ! pos" pos]
    by (simp add: map_update)
  then show ?thesis using s s' assms(2) by (simp add: siftup_def Let_def)
qed

lemma heappush_map:
  assumes g: "\<And>x. freq (g x) = freq x"
  shows "heappush (map g h) (g x) = map g (heappush h x)"
  unfolding heappush_def siftdown_def
  using siftdown_loop_map[OF g, of "length h" "h @ [x]" x 0] by (simp add: nth_append)

lemma heappop_map:
  assumes g: "\<And>x. freq (g x) = freq x" and "heappop h = Inr (x, h')"
  shows "heappop (map g h) = Inr (g x, map g h')"
proof (cases h rule: rev_cases)
  case Nil
  with assms(2) show ?thesis by (simp add: heappop_def)
next
  case (snoc ys y)
  show ?thesis
  proof (cases ys)
    case Nil
    with snoc assms(2) show ?thesis by (auto simp: heappop_def)
  next
    case (Cons z zs)
    with snoc assms(2) have "x = z" "h' = siftup (y # zs) 0" by (auto simp: heappop_def)
    moreover have "siftup (map g (y # zs)) 0 = map g (siftup (y # zs) 0)"
      by (rule siftup_map[OF g]) simp
    ultimately show ?thesis using snoc Cons by (simp add: heappop_def)
  qed
qed

lemma merge_loop_map:
  assumes g: "\<And>x. freq (g x) = freq x"
    and m: "\<And>x y. g (merged_node x y) = merged_node (g x) (g y)"
  shows "merge_loop h = Inr h' \<Longrightarrow> merge_loop (map g h) = Inr (map g h')"
proof (induction "length h" arbitrary: h rule: less_induct)
  case less
  show ?case
  proof (cases "length h > 1")
    case False
    with less.prems show ?thesis by (simp add: merge_loop_stop)
  next
    case True
    then obtain node1 heap1 node2 heap2 where
      p1: "heappop h = Inr (node1, heap1)" and p2: "heappop heap1 = Inr (node2, heap2)" and
      step: "merge_loop h = merge_loop (heappush heap2 (merged_node node1 node2))"
      by (rule merge_loop_step)
    let ?n = "heappush heap2 (merged_node node1 node2)"
    have len: "length ?n < length h"
      using length_heappop[OF p1] length_heappop[OF p2] by simp
    have "merge_loop (map g ?n) = Inr (map g h')"
      using less.hyps[OF len] step less.prems by simp
    moreover have "map g ?n = heappush (map g heap2) (merged_node (g node1) (g node2))"
      by (simp add: heappush_map[OF g, symmetric] m)
    moreover have "merge_loop (map g h)
        = merge_loop (heappush (map g heap2) (merged_node (g node1) (g node2)))"
      using True heappop_map[OF g p1] heappop_map[OF g p2]
      by (subst merge_loop.simps) (simp add: merged_node_def g)
    ultimately show ?thesis by simp
  qed
qed

subsection \<open>The cost of a tree\<close>

lemma weight_sum: "weight w t = (\<Sum>a\<leftarrow>leaves t. w a)"
  by (induction t) simp_all

lemma cost_paths: "cost w t = (\<Sum>(a, p)\<leftarrow>paths t. w a * int (length p))"
proof (induction t)
  case (Leaf a)
  show ?case by simp
next
  case (Branch l r)
  have "(\<Sum>(a, p)\<leftarrow>paths t. w a * int (Suc (length p))) = weight w t + cost' "
    if "cost' = (\<Sum>(a, p)\<leftarrow>paths t. w a * int (length p))" for t :: "'a tree" and cost'
  proof -
    have "(\<Sum>(a, p)\<leftarrow>ps. w a * int (Suc (length p)))
        = (\<Sum>a\<leftarrow>map fst ps. w a) + (\<Sum>(a, p)\<leftarrow>ps. w a * int (length p))"
      for ps :: "('a \<times> string) list"
      by (induction ps) (auto simp: algebra_simps)
    from this[of "paths t"] that show ?thesis by (simp add: weight_sum)
  qed
  from this[OF Branch.IH(1)] this[OF Branch.IH(2)] show ?case
    by (simp add: comp_def case_prod_unfold)
qed

lemma depth_le_height: "depth t a \<le> height t"
  by (induction t) auto

lemma cost_upd:
  "distinct (leaves t) \<Longrightarrow>
   weight (w(a := v)) t = weight w t + (if a \<in> set (leaves t) then v - w a else 0) \<and>
   cost (w(a := v)) t = cost w t + (if a \<in> set (leaves t) then (v - w a) * int (depth t a) else 0)"
  by (induction t) (auto simp: algebra_simps)

lemma sw_simps [simp]: "sw x y x = y" "sw x y y = x" "z \<noteq> x \<Longrightarrow> z \<noteq> y \<Longrightarrow> sw x y z = z"
  by (simp_all add: sw_def)

lemma sw_inj: "inj (sw x y)"
  by (auto simp: inj_def sw_def split: if_splits)

lemma sw_image: "x \<in> A \<Longrightarrow> y \<in> A \<Longrightarrow> sw x y ` A = A"
  by (auto simp: sw_def image_iff split: if_splits)

lemma leaves_map_tree: "leaves (map_tree f t) = map f (leaves t)"
  by (induction t) simp_all

lemma height_map_tree [simp]: "height (map_tree f t) = height t"
  by (induction t) simp_all

lemma cost_map_tree:
  "weight w (map_tree f t) = weight (w \<circ> f) t \<and> cost w (map_tree f t) = cost (w \<circ> f) t"
  by (induction t) simp_all

lemma cost_sw:
  assumes "distinct (leaves t)" "x \<in> set (leaves t)" "y \<in> set (leaves t)"
  shows "cost w (map_tree (sw x y) t)
       = cost w t - (w y - w x) * (int (depth t y) - int (depth t x))"
proof (cases "x = y")
  case True
  have "sw x x = id" by (auto simp: sw_def)
  then show ?thesis using True by (simp add: tree.map_id)
next
  case False
  have "w \<circ> sw x y = (w(x := w y))(y := w x)" by (auto simp: sw_def)
  then have "cost w (map_tree (sw x y) t) = cost ((w(x := w y))(y := w x)) t"
    by (simp add: cost_map_tree)
  also have "\<dots> = cost (w(x := w y)) t + (w x - w y) * int (depth t y)"
    using cost_upd[OF assms(1), of "w(x := w y)" y "w x"] assms(3) False by simp
  also have "\<dots> = cost w t + (w y - w x) * int (depth t x) + (w x - w y) * int (depth t y)"
    using cost_upd[OF assms(1), of w x "w y"] assms(2) by simp
  finally show ?thesis by (simp add: algebra_simps)
qed

subsection \<open>Exchanging symbols: the merge of the two lightest is optimal\<close>

lemma deep_sibs_exist: "is_branch t \<Longrightarrow> \<exists>a b. deep_sibs t a b"
proof (induction t)
  case (Leaf x)
  then show ?case by simp
next
  case (Branch l r)
  show ?case
  proof (cases "height r \<le> height l")
    case True
    show ?thesis
    proof (cases l)
      case (Leaf a)
      with True obtain b where "r = Leaf b" by (cases r) auto
      with Leaf show ?thesis by auto
    next
      case B: (Branch l1 l2)
      with Branch.IH(1) obtain a b where "deep_sibs l a b" by auto
      with True show ?thesis by auto
    qed
  next
    case False
    then obtain r1 r2 where "r = Branch r1 r2" by (cases r) auto
    with Branch.IH(2) obtain a b where "deep_sibs r a b" by auto
    with False show ?thesis by auto
  qed
qed

lemma deep_sibs_leaves:
  "deep_sibs t a b \<Longrightarrow> a \<in> set (leaves t) \<and> b \<in> set (leaves t)"
  by (induction t) auto

lemma deep_sibs_depth:
  "deep_sibs t a b \<Longrightarrow> distinct (leaves t) \<Longrightarrow>
   depth t a = height t \<and> depth t b = height t \<and> a \<noteq> b"
proof (induction t)
  case (Leaf x)
  then show ?case by simp
next
  case (Branch l r)
  from Branch.prems(1) consider
    (top) "l = Leaf a" "r = Leaf b"
  | (left) "height r \<le> height l" "deep_sibs l a b"
  | (right) "height l \<le> height r" "deep_sibs r a b"
    by auto
  then show ?case
  proof cases
    case top
    with Branch.prems(2) show ?thesis by auto
  next
    case left
    with Branch.IH(1) Branch.prems(2) deep_sibs_leaves[OF left(2)] show ?thesis
      by (auto simp: max_def)
  next
    case right
    with Branch.IH(2) Branch.prems(2) deep_sibs_leaves[OF right(2)] show ?thesis
      by (auto simp: max_def)
  qed
qed

lemma deep_sibs_map_tree: "deep_sibs t a b \<Longrightarrow> deep_sibs (map_tree f t) (f a) (f b)"
  by (induction t) auto

lemma split_absent: "a \<notin> set (leaves t) \<Longrightarrow> split a b t = t"
  by (induction t) auto

lemma leaves_split:
  "set (leaves (split a b t)) = set (leaves t) \<union> (if a \<in> set (leaves t) then {b} else {})"
  by (induction t) auto

lemma distinct_split:
  "distinct (leaves t) \<Longrightarrow> b \<notin> set (leaves t) \<Longrightarrow> distinct (leaves (split a b t))"
proof (induction t)
  case (Leaf x)
  then show ?case by auto
next
  case (Branch l r)
  then show ?case using leaves_split[of a b l] leaves_split[of a b r]
    by (auto split: if_splits)
qed

lemma cost_split:
  "distinct (leaves t) \<Longrightarrow>
   weight w (split a b t) = weight (w(a := w a + w b)) t \<and>
   cost w (split a b t)
     = cost (w(a := w a + w b)) t + (if a \<in> set (leaves t) then w a + w b else 0)"
  by (induction t) auto

lemma unsplit:
  "deep_sibs t a b \<Longrightarrow> distinct (leaves t) \<Longrightarrow>
   \<exists>t'. split a b t' = t \<and> distinct (leaves t') \<and> set (leaves t') = set (leaves t) - {b}
        \<and> a \<in> set (leaves t')"
proof (induction t)
  case (Leaf x)
  then show ?case by simp
next
  case (Branch l r)
  from Branch.prems(1) consider
    (top) "l = Leaf a" "r = Leaf b"
  | (left) "deep_sibs l a b"
  | (right) "deep_sibs r a b"
    by auto
  then show ?case
  proof cases
    case top
    with Branch.prems(2) have "split a b (Leaf a) = Branch l r \<and> distinct (leaves (Leaf a))
      \<and> set (leaves (Leaf a)) = set (leaves (Branch l r)) - {b} \<and> a \<in> set (leaves (Leaf a))"
      by auto
    then show ?thesis by blast
  next
    case left
    with Branch obtain l' where l': "split a b l' = l" "distinct (leaves l')"
      "set (leaves l') = set (leaves l) - {b}" "a \<in> set (leaves l')" by auto
    from deep_sibs_leaves[OF left] Branch.prems(2)
    have "a \<notin> set (leaves r)" "b \<notin> set (leaves r)" by auto
    with l' Branch.prems(2) have "split a b (Branch l' r) = Branch l r
      \<and> distinct (leaves (Branch l' r))
      \<and> set (leaves (Branch l' r)) = set (leaves (Branch l r)) - {b}
      \<and> a \<in> set (leaves (Branch l' r))"
      by (auto simp: split_absent)
    then show ?thesis by blast
  next
    case right
    with Branch obtain r' where r': "split a b r' = r" "distinct (leaves r')"
      "set (leaves r') = set (leaves r) - {b}" "a \<in> set (leaves r')" by auto
    from deep_sibs_leaves[OF right] Branch.prems(2)
    have "a \<notin> set (leaves l)" "b \<notin> set (leaves l)" by auto
    with r' Branch.prems(2) have "split a b (Branch l r') = Branch l r
      \<and> distinct (leaves (Branch l r'))
      \<and> set (leaves (Branch l r')) = set (leaves (Branch l r)) - {b}
      \<and> a \<in> set (leaves (Branch l r'))"
      by (auto simp: split_absent)
    then show ?thesis by blast
  qed
qed

text \<open>Moving a light symbol to a deepest leaf does not raise the cost.\<close>

lemma swap_deep:
  assumes "distinct (leaves t)" "x \<in> set (leaves t)" "y \<in> set (leaves t)"
    and "w x \<le> w y" "depth t y = height t"
  shows "cost w (map_tree (sw x y) t) \<le> cost w t"
    and "distinct (leaves (map_tree (sw x y) t))"
    and "set (leaves (map_tree (sw x y) t)) = set (leaves t)"
proof -
  have "0 \<le> (w y - w x) * (int (depth t y) - int (depth t x))"
    using assms(4,5) depth_le_height[of t x] by (intro mult_nonneg_nonneg) simp_all
  then show "cost w (map_tree (sw x y) t) \<le> cost w t"
    unfolding cost_sw[OF assms(1-3), of w] by linarith
  show "distinct (leaves (map_tree (sw x y) t))"
    using assms(1) inj_on_subset[OF sw_inj subset_UNIV, of x y "set (leaves t)"]
    by (simp add: leaves_map_tree distinct_map)
  show "set (leaves (map_tree (sw x y) t)) = set (leaves t)"
    using sw_image[OF assms(2,3)] by (simp add: leaves_map_tree)
qed

lemma exchange:
  assumes d: "distinct (leaves u)" and a: "a \<in> set (leaves u)" and b: "b \<in> set (leaves u)"
    and ab: "a \<noteq> b"
    and mina: "\<forall>x\<in>set (leaves u). w a \<le> w x"
    and minb: "\<forall>x\<in>set (leaves u) - {a}. w b \<le> w x"
  shows "\<exists>u'. distinct (leaves u') \<and> set (leaves u') = set (leaves u) - {b}
           \<and> a \<in> set (leaves u') \<and> cost w (split a b u') \<le> cost w u"
proof -
  have "is_branch u" using a b ab by (cases u) auto
  then obtain c e where ce: "deep_sibs u c e" using deep_sibs_exist by blast
  note cd = deep_sibs_leaves[OF ce] deep_sibs_depth[OF ce d]
  let ?u1 = "map_tree (sw a c) u"
  have 1: "cost w ?u1 \<le> cost w u" "distinct (leaves ?u1)" "set (leaves ?u1) = set (leaves u)"
    using swap_deep[OF d a _ _ , of c w] cd mina by simp_all
  define e' where "e' = sw a c e"
  have s1: "deep_sibs ?u1 a e'"
    using deep_sibs_map_tree[OF ce, of "sw a c"] by (simp add: e'_def)
  note cd1 = deep_sibs_leaves[OF s1] deep_sibs_depth[OF s1 1(2)]
  let ?u2 = "map_tree (sw b e') ?u1"
  have "w b \<le> w e'" using minb cd1 1(3) by auto
  then have 2: "cost w ?u2 \<le> cost w ?u1" "distinct (leaves ?u2)"
    "set (leaves ?u2) = set (leaves u)"
    using swap_deep[OF 1(2), of b e' w] cd1 b 1(3) by simp_all
  have "sw b e' a = a" using ab cd1 by simp
  then have s2: "deep_sibs ?u2 a b"
    using deep_sibs_map_tree[OF s1, of "sw b e'"] by simp
  from unsplit[OF s2 2(2)] obtain u' where
    u': "split a b u' = ?u2" "distinct (leaves u')" "set (leaves u') = set (leaves ?u2) - {b}"
      "a \<in> set (leaves u')"
    by blast
  have "cost w (split a b u') \<le> cost w u" using u'(1) 1(1) 2(1) by simp
  with u' 2(3) show ?thesis by auto
qed

lemma split_optimal:
  assumes d: "distinct (leaves t)" and a: "a \<in> set (leaves t)" and b: "b \<notin> set (leaves t)"
    and opt: "optimal (w(a := w a + w b)) t"
    and mina: "\<forall>x\<in>set (leaves t). w a \<le> w x" "w a \<le> w b"
    and minb: "\<forall>x\<in>set (leaves t) - {a}. w b \<le> w x"
  shows "optimal w (split a b t)"
  unfolding optimal_def
proof (intro allI impI)
  fix u
  assume u: "distinct (leaves u) \<and> set (leaves u) = set (leaves (split a b t))"
  then have su: "set (leaves u) = insert b (set (leaves t))"
    using leaves_split[of a b t] a by simp
  have ab: "a \<noteq> b" using a b by auto
  have ua: "a \<in> set (leaves u)" and ub: "b \<in> set (leaves u)" using su a by auto
  have m1: "\<forall>x\<in>set (leaves u). w a \<le> w x" using su mina by auto
  have m2: "\<forall>x\<in>set (leaves u) - {a}. w b \<le> w x" using su minb by auto
  from u have du: "distinct (leaves u)" by simp
  from exchange[OF du ua ub ab m1 m2]
  obtain u' where u': "distinct (leaves u')" "set (leaves u') = set (leaves u) - {b}"
    "a \<in> set (leaves u')" "cost w (split a b u') \<le> cost w u"
    by blast
  have "set (leaves u') = set (leaves t)" using u'(2) su b by auto
  with opt u'(1) have "cost (w(a := w a + w b)) t \<le> cost (w(a := w a + w b)) u'"
    by (simp add: optimal_def)
  then have "cost w (split a b t) \<le> cost w (split a b u')"
    using cost_split[OF d, of w a b] cost_split[OF u'(1), of w a b] a u'(3) by simp
  with u'(4) show "cost w (split a b t) \<le> cost w u" by simp
qed

subsection \<open>The merge loop builds an optimal tree\<close>

lemma freq_subst: "freq M = freq L \<Longrightarrow> freq (subst L M x) = freq x"
  by (cases x) auto

lemma subst_merged_node:
  "char L \<noteq> None \<Longrightarrow> freq M = freq L \<Longrightarrow>
   subst L M (merged_node x y) = merged_node (subst L M x) (subst L M y)"
  by (cases L) (auto simp: merged_node_def freq_subst)

lemma subst_leaf: "subst (leaf w' a) M (leaf w x) = (if leaf w x = leaf w' a then M else leaf w x)"
  by (auto simp: leaf_def)

lemma subst_proper:
  assumes "proper M" "leaf_freqs w M" "shape M = Branch (Leaf a) (Leaf b)"
    and "\<forall>x. x \<noteq> a \<longrightarrow> w' x = w x"
  shows "proper t \<Longrightarrow> leaf_freqs w' t \<Longrightarrow>
    proper (subst (leaf w' a) M t) \<and> leaf_freqs w (subst (leaf w' a) M t)
    \<and> shape (subst (leaf w' a) M t) = split a b (shape t)"
proof (induction t rule: proper.induct)
  case (1 c f)
  then obtain x where "c = Some x" "f = w' x" by (auto split: option.splits)
  with assms show ?case by (auto simp: leaf_def)
next
  case (2 c f l r)
  then show ?case by (auto simp: leaf_def)
qed simp_all

text \<open>
  On a heap of leaves with distinct symbols the loop pops the two lightest leaves. The
  rest of the run is the run on the heap in which one leaf of their joint weight stands
  for the merged node, with the merged node put back in its place at the end; so the
  result is optimal by induction on the number of leaves.
\<close>

lemma leaf_inj: "leaf w a = leaf w' b \<Longrightarrow> a = b"
  by (simp add: leaf_def)

lemma heappop_leaf_heap:
  assumes "is_heap h" "distinct h" "set h = leaf w ` A" "heappop h = Inr (n, h')"
  obtains a where "a \<in> A" "n = leaf w a" "is_heap h'" "distinct h'"
    "set h' = leaf w ` (A - {a})" "\<forall>x\<in>A. w a \<le> w x"
proof -
  have m: "mset h = add_mset n (mset h')" using assms(4) by (rule mset_heappop)
  then have "distinct (n # h')" using assms(2) by (metis mset.simps(2) mset_eq_imp_distinct_iff)
  then have d: "distinct h'" "n \<notin> set h'" by simp_all
  have s: "set h = insert n (set h')" using arg_cong[OF m, of set_mset] by simp
  then obtain a where a: "a \<in> A" "n = leaf w a" using assms(3) by auto
  have "set h' = leaf w ` (A - {a})"
  proof -
    have "set h' = leaf w ` A - {leaf w a}" using s d(2) a(2) assms(3) by auto
    also have "\<dots> = leaf w ` (A - {a})" using leaf_inj[of w _ w a] by auto
    finally show ?thesis .
  qed
  moreover have "\<forall>x\<in>A. w a \<le> w x"
  proof
    fix x assume "x \<in> A"
    then have "leaf w x \<in> set h" using assms(3) by simp
    from heappop_min[OF assms(1,4) this] a(2) show "w a \<le> w x" by (simp add: leaf_def)
  qed
  ultimately show thesis
    using a d(1) is_heap_heappop(1)[OF assms(1,4)] that by blast
qed

lemma optimal_Leaf:
  assumes "set (leaves t) = {a}" "distinct (leaves t)"
  shows "t = Leaf a"
proof -
  have "length (leaves t) = 1"
    using assms by (metis distinct_card card.empty card_insert_if empty_iff finite.emptyI One_nat_def)
  then have "\<not> is_branch t" by (simp add: is_branch_length)
  then obtain x where "t = Leaf x" by (cases t) auto
  with assms(1) show ?thesis by simp
qed

lemma merge_loop_optimal:
  assumes "is_heap h" "distinct h" "set h = leaf w ` A" "A \<noteq> {}"
  shows "\<exists>t. merge_loop h = Inr [t] \<and> proper t \<and> leaf_freqs w t
           \<and> distinct (leaves (shape t)) \<and> set (leaves (shape t)) = A
           \<and> optimal w (shape t)"
  using assms
proof (induction "length h" arbitrary: h w A rule: less_induct)
  case less
  show ?case
  proof (cases "length h > 1")
    case False
    moreover have "h \<noteq> []" using less.prems(3,4) by auto
    ultimately obtain n where h: "h = [n]" by (cases h) auto
    with less.prems(3) obtain a where a: "n = leaf w a" "A = {a}"
      by (auto dest: leaf_inj simp: image_iff set_eq_iff) (metis leaf_inj)
    have "optimal w (Leaf a)"
      unfolding optimal_def
    proof (intro allI impI)
      fix u assume "distinct (leaves u) \<and> set (leaves u) = set (leaves (Leaf a))"
      then have "u = Leaf a" using optimal_Leaf[of u a] by simp
      then show "cost w (Leaf a) \<le> cost w u" by simp
    qed
    then show ?thesis using h a by (simp add: merge_loop_stop leaf_def)
  next
    case True
    then obtain node1 heap1 node2 heap2 where
      p1: "heappop h = Inr (node1, heap1)" and p2: "heappop heap1 = Inr (node2, heap2)" and
      step: "merge_loop h = merge_loop (heappush heap2 (merged_node node1 node2))"
      by (rule merge_loop_step)
    from less.prems(1-3) p1 obtain a where a: "a \<in> A" "node1 = leaf w a" "is_heap heap1"
      "distinct heap1" "set heap1 = leaf w ` (A - {a})" "\<forall>x\<in>A. w a \<le> w x"
      by (rule heappop_leaf_heap)
    from a(3-5) p2 obtain b where b: "b \<in> A - {a}" "node2 = leaf w b" "is_heap heap2"
      "distinct heap2" "set heap2 = leaf w ` (A - {a} - {b})" "\<forall>x\<in>A - {a}. w b \<le> w x"
      by (rule heappop_leaf_heap)
    define w' where "w' = w(a := w a + w b)"
    define M where "M = merged_node node1 node2"
    define L where "L = leaf w' a"
    define A' where "A' = A - {b}"
    let ?h' = "heappush heap2 L"
    have fr: "freq M = freq L" by (simp add: M_def L_def merged_node_def leaf_def w'_def a b)
    have same: "leaf w' x = leaf w x" if "x \<noteq> a" for x using that by (simp add: leaf_def w'_def)
    have Lnot: "L \<notin> set heap2" unfolding b(5) L_def using leaf_inj[of w' a w] by auto
    have m': "mset ?h' = add_mset L (mset heap2)" by (rule mset_heappush)
    have 1: "is_heap ?h'" using b(3) by (rule is_heap_heappush)
    have 2: "distinct ?h'"
      using m' Lnot b(4) by (metis distinct.simps(2) mset.simps(2) mset_eq_imp_distinct_iff)
    have 3: "set ?h' = leaf w' ` A'"
    proof -
      have "set ?h' = insert L (leaf w ` (A - {a} - {b}))"
        using arg_cong[OF m', of set_mset] b(5) by simp
      also have "leaf w ` (A - {a} - {b}) = leaf w' ` (A - {a} - {b})"
        by (intro image_cong refl) (simp add: same)
      also have "insert L \<dots> = leaf w' ` insert a (A - {a} - {b})" by (simp add: L_def)
      also have "insert a (A - {a} - {b}) = A'" using a(1) b(1) by (auto simp: A'_def)
      finally show ?thesis .
    qed
    have 4: "A' \<noteq> {}" using a(1) b(1) by (auto simp: A'_def)
    have len: "length ?h' < length h"
      using length_heappop[OF p1] length_heappop[OF p2] by simp
    from less.hyps[OF len 1 2 3 4] obtain t where
      t: "merge_loop ?h' = Inr [t]" "proper t" "leaf_freqs w' t"
         "distinct (leaves (shape t))" "set (leaves (shape t)) = A'" "optimal w' (shape t)"
      by blast
    let ?g = "subst L M"
    have g: "freq (?g x) = freq x" for x using fr by (rule freq_subst)
    have gm: "?g (merged_node x y) = merged_node (?g x) (?g y)" for x y
      using fr by (intro subst_merged_node) (simp_all add: L_def leaf_def)
    have "map ?g heap2 = heap2"
    proof (rule map_idI)
      fix n assume n: "n \<in> set heap2"
      then obtain x where "n = leaf w x" using b(5) by auto
      with n Lnot show "?g n = n" by (auto simp: L_def subst_leaf)
    qed
    moreover have "?g L = M" by (simp add: L_def leaf_def)
    ultimately have "heappush heap2 M = map ?g ?h'"
      using heappush_map[of ?g heap2 L, OF g] by simp
    then have res: "merge_loop h = Inr [?g t]"
      using merge_loop_map[of ?g ?h' "[t]", OF g gm t(1)] step by (simp add: M_def)
    have Mp: "proper M" "leaf_freqs w M" "shape M = Branch (Leaf a) (Leaf b)"
      by (simp_all add: M_def merged_node_def a b leaf_def)
    have ww: "\<forall>x. x \<noteq> a \<longrightarrow> w' x = w x" by (simp add: w'_def)
    from subst_proper[OF Mp ww t(2,3)]
    have gt: "proper (?g t)" "leaf_freqs w (?g t)" "shape (?g t) = split a b (shape t)"
      by (simp_all add: L_def)
    have aA': "a \<in> A'" "b \<notin> A'" using a(1) b(1) by (auto simp: A'_def)
    have "optimal w (split a b (shape t))"
    proof (rule split_optimal)
      show "distinct (leaves (shape t))" by (rule t(4))
      show "a \<in> set (leaves (shape t))" "b \<notin> set (leaves (shape t))" using aA' t(5) by simp_all
      show "optimal (w(a := w a + w b)) (shape t)" using t(6) by (simp add: w'_def)
      show "\<forall>x\<in>set (leaves (shape t)). w a \<le> w x" using a(6) t(5) by (auto simp: A'_def)
      show "w a \<le> w b" using a(6) b(1) by simp
      show "\<forall>x\<in>set (leaves (shape t)) - {a}. w b \<le> w x" using b(6) t(5) by (auto simp: A'_def)
    qed
    moreover have "distinct (leaves (split a b (shape t)))"
      using t(4,5) aA' by (intro distinct_split) simp_all
    moreover have "set (leaves (split a b (shape t))) = A"
      using leaves_split[of a b "shape t"] t(5) aA' b(1) by (auto simp: A'_def)
    ultimately show ?thesis using res gt by simp
  qed
qed

subsection \<open>Prefix codes and trees\<close>

lemma weight_set: "distinct (leaves t) \<Longrightarrow> weight w t = sum w (set (leaves t))"
  by (simp add: weight_sum sum_list_distinct_conv_sum_set)

lemma cost_depth:
  "distinct (leaves t) \<Longrightarrow> cost w t = (\<Sum>a\<in>set (leaves t). w a * int (depth t a))"
proof (induction t)
  case (Leaf x)
  show ?case by simp
next
  case (Branch l r)
  let ?L = "set (leaves l)" and ?R = "set (leaves r)"
  from Branch.prems have d: "distinct (leaves l)" "distinct (leaves r)" "?L \<inter> ?R = {}" by auto
  have "(\<Sum>a\<in>?L. w a * int (depth (Branch l r) a)) = (\<Sum>a\<in>?L. w a + w a * int (depth l a))"
    by (intro sum.cong refl) (simp add: algebra_simps)
  moreover have "(\<Sum>a\<in>?R. w a * int (depth (Branch l r) a))
      = (\<Sum>a\<in>?R. w a + w a * int (depth r a))"
    using d(3) by (intro sum.cong refl) (auto simp: algebra_simps)
  ultimately have "(\<Sum>a\<in>?L \<union> ?R. w a * int (depth (Branch l r) a))
      = weight w l + cost w l + weight w r + cost w r"
    using d Branch.IH by (simp add: sum.union_disjoint sum.distrib weight_set)
  then show ?case by simp
qed

lemma length_path_depth:
  "distinct (leaves t) \<Longrightarrow> (a, p) \<in> set (paths t) \<Longrightarrow> length p = depth t a"
proof (induction t arbitrary: p)
  case (Leaf x)
  then show ?case by simp
next
  case (Branch l r)
  from Branch.prems(2) consider
    (L) q where "p = CHR ''0'' # q" "(a, q) \<in> set (paths l)"
  | (R) q where "p = CHR ''1'' # q" "(a, q) \<in> set (paths r)"
    by auto
  then show ?case
  proof cases
    case L
    then have "a \<in> set (leaves l)" using map_fst_paths[of l] by (metis fst_conv image_eqI set_map)
    with L Branch show ?thesis by simp
  next
    case R
    then have "a \<in> set (leaves r)" using map_fst_paths[of r] by (metis fst_conv image_eqI set_map)
    with R Branch show ?thesis by auto
  qed
qed

text \<open>
  Every binary prefix code on a finite set of symbols is at least as costly as some tree
  with these symbols as leaves.
\<close>

lemma code_tree:
  assumes "finite A" "A \<noteq> {}"
    and "\<forall>a\<in>A. set (code a) \<subseteq> {CHR ''0'', CHR ''1''}"
    and "\<forall>a\<in>A. \<forall>b\<in>A. a \<noteq> b \<longrightarrow> \<not> prefix (code a) (code b)"
    and "\<forall>a\<in>A. 0 \<le> w a"
  shows "\<exists>u. distinct (leaves u) \<and> set (leaves u) = A
           \<and> cost w u \<le> (\<Sum>a\<in>A. w a * int (length (code a)))"
  using assms
proof (induction "\<Sum>a\<in>A. length (code a)" arbitrary: A code rule: less_induct)
  case less
  show ?case
  proof (cases "\<exists>a. A = {a}")
    case True
    then obtain a where A: "A = {a}" by blast
    have "distinct (leaves (Leaf a)) \<and> set (leaves (Leaf a)) = A
      \<and> cost w (Leaf a) \<le> (\<Sum>a\<in>A. w a * int (length (code a)))"
      using A less.prems(5) by simp
    then show ?thesis by blast
  next
    case False
    have ne: "code a \<noteq> []" if "a \<in> A" for a
    proof
      assume e: "code a = []"
      from False less.prems(2) that obtain b where "b \<in> A" "b \<noteq> a" by auto
      with less.prems(4) that e show False by auto
    qed
    define A0 where "A0 = {a\<in>A. hd (code a) = CHR ''0''}"
    define A1 where "A1 = {a\<in>A. hd (code a) \<noteq> CHR ''0''}"
    define code' where "code' a = tl (code a)" for a
    have part: "A0 \<union> A1 = A" "A0 \<inter> A1 = {}" "finite A0" "finite A1"
      using less.prems(1) by (auto simp: A0_def A1_def)
    have c0: "code a = CHR ''0'' # code' a" if "a \<in> A0" for a
      using that ne[of a] by (cases "code a") (auto simp: A0_def code'_def)
    have c1: "code a = CHR ''1'' # code' a" if "a \<in> A1" for a
      using that ne[of a] less.prems(3) by (cases "code a") (auto simp: A1_def code'_def)
    have sub: "\<exists>u. distinct (leaves u) \<and> set (leaves u) = B
           \<and> cost w u \<le> (\<Sum>a\<in>B. w a * int (length (code' a)))"
      if B: "B = A0 \<or> B = A1" "B \<noteq> {}" for B
    proof (rule less.hyps)
      have BA: "B \<subseteq> A" using B(1) part(1) by auto
      have cB: "\<exists>c. \<forall>a\<in>B. code a = c # code' a" using B(1) c0 c1 by auto
      have "(\<Sum>a\<in>B. length (code' a)) < (\<Sum>a\<in>B. length (code a))"
        using B part(3,4) cB by (intro sum_strict_mono) auto
      also have "\<dots> \<le> (\<Sum>a\<in>A. length (code a))"
        using BA less.prems(1) by (intro sum_mono2) auto
      finally show "(\<Sum>a\<in>B. length (code' a)) < (\<Sum>a\<in>A. length (code a))" .
      show "finite B" using B(1) part(3,4) by auto
      show "B \<noteq> {}" by (rule B(2))
      show "\<forall>a\<in>B. set (code' a) \<subseteq> {CHR ''0'', CHR ''1''}"
        using less.prems(3) BA cB by (metis set_subset_Cons subset_trans subsetD)
      show "\<forall>a\<in>B. \<forall>b\<in>B. a \<noteq> b \<longrightarrow> \<not> prefix (code' a) (code' b)"
      proof (intro ballI impI)
        fix a b assume ab: "a \<in> B" "b \<in> B" "a \<noteq> b"
        with less.prems(4) BA have "\<not> prefix (code a) (code b)" by auto
        with cB ab show "\<not> prefix (code' a) (code' b)" by auto
      qed
      show "\<forall>a\<in>B. 0 \<le> w a" using less.prems(5) BA by auto
    qed
    have shorter: "(\<Sum>a\<in>B. w a * int (length (code' a))) \<le> (\<Sum>a\<in>B. w a * int (length (code a)))"
      if "B \<subseteq> A" for B
    proof (rule sum_mono)
      fix a assume "a \<in> B"
      with that have "a \<in> A" by auto
      then have "0 \<le> w a" "length (code' a) \<le> length (code a)"
        using less.prems(5) by (simp_all add: code'_def)
      then show "w a * int (length (code' a)) \<le> w a * int (length (code a))"
        by (intro mult_left_mono) simp_all
    qed
    show ?thesis
    proof (cases "A0 = {} \<or> A1 = {}")
      case True
      then obtain B where B: "B = A0 \<or> B = A1" "B = A" using part(1) by auto
      with sub[of B] less.prems(2) obtain u where "distinct (leaves u)" "set (leaves u) = A"
        "cost w u \<le> (\<Sum>a\<in>A. w a * int (length (code' a)))" by auto
      with shorter[of A] show ?thesis by fastforce
    next
      case F: False
      from sub[of A0] F obtain u0 where u0: "distinct (leaves u0)" "set (leaves u0) = A0"
        "cost w u0 \<le> (\<Sum>a\<in>A0. w a * int (length (code' a)))" by auto
      from sub[of A1] F obtain u1 where u1: "distinct (leaves u1)" "set (leaves u1) = A1"
        "cost w u1 \<le> (\<Sum>a\<in>A1. w a * int (length (code' a)))" by auto
      have s0: "(\<Sum>a\<in>A0. w a * int (length (code a)))
          = sum w A0 + (\<Sum>a\<in>A0. w a * int (length (code' a)))"
        unfolding sum.distrib[symmetric]
        by (intro sum.cong refl) (simp add: c0 algebra_simps)
      have s1: "(\<Sum>a\<in>A1. w a * int (length (code a)))
          = sum w A1 + (\<Sum>a\<in>A1. w a * int (length (code' a)))"
        unfolding sum.distrib[symmetric]
        by (intro sum.cong refl) (simp add: c1 algebra_simps)
      have "(\<Sum>a\<in>A. w a * int (length (code a)))
          = (\<Sum>a\<in>A0. w a * int (length (code a))) + (\<Sum>a\<in>A1. w a * int (length (code a)))"
        using part sum.union_disjoint[of A0 A1 "\<lambda>a. w a * int (length (code a))"] by simp
      then have "cost w (Branch u0 u1) \<le> (\<Sum>a\<in>A. w a * int (length (code a)))"
        using u0 u1 s0 s1 by (simp add: weight_set)
      moreover have "distinct (leaves (Branch u0 u1))" "set (leaves (Branch u0 u1)) = A"
        using u0 u1 part by auto
      ultimately show ?thesis by blast
    qed
  qed
qed

subsection \<open>Optimality of the built code\<close>

lemma length_encoding:
  "int (length (concat (map code S))) = (\<Sum>a\<in>set S. int (count_list S a) * int (length (code a)))"
proof -
  have "length (concat (map code S)) = sum_list (map (length \<circ> code) S)"
    by (simp add: length_concat)
  also have "\<dots> = (\<Sum>a\<in>set S. count_list S a * (length \<circ> code) a)"
    by (rule sum_list_map_eq_sum_count)
  finally show ?thesis by simp
qed

text \<open>The number of bits that the code table of a proper tree gives a text.\<close>

lemma encode_text_length:
  assumes "proper t" "distinct (leaves (shape t))" "set (leaves (shape t)) = set S"
  shows "\<exists>codes enc. generate_codes_call shared t = (codes, None)
           \<and> encode_text S codes = Inr enc
           \<and> int (length enc) = (if is_branch (shape t)
                then cost (\<lambda>a. int (count_list S a)) (shape t) else int (length S))"
  using assms(1)
proof (cases t rule: proper_cases)
  case (leaf a f)
  let ?codes = "AList.update (Some a) ''0'' shared"
  have g: "generate_codes_call shared t = (?codes, None)"
    using leaf by (simp add: generate_codes_call_def)
  have v: "\<forall>c\<in>set S. map_of ?codes (Some c) = Some ''0''"
    using assms(3) leaf by (auto simp: update_conv')
  then have ne: "\<forall>c\<in>set S. map_of ?codes (Some c) \<noteq> None" by simp
  have meq: "map (\<lambda>c. the (map_of ?codes (Some c))) S = map (\<lambda>c. ''0'') S"
    using v by (intro map_cong) simp_all
  have e: "encode_text S ?codes = Inr (concat (map (\<lambda>c. ''0'') S))"
    unfolding encode_text_defined[OF ne] meq ..
  have "length (concat (map (\<lambda>c. ''0'') S)) = length S" by (induction S) simp_all
  with g e leaf show ?thesis by simp
next
  case (branch f l r)
  let ?root = "shape t"
  let ?codes = "store (paths ?root) shared"
  have br: "is_branch ?root" using branch by simp
  have g: "generate_codes_call shared t = (?codes, None)"
    using assms(1) branch walk_Branch[of "shape l" "shape r"]
    by (simp add: generate_codes_call_def generate_codes_proper
        del: generate_codes.simps walk.simps paths.simps)
  define code where "code c = the (map_of ?codes (Some c))" for c
  have d: "distinct (map fst (paths ?root))" using assms(2) by simp
  have look: "(c, p) \<in> set (paths ?root) \<Longrightarrow> map_of ?codes (Some c) = Some p" for c p
    using map_of_store[OF d] by blast
  have cov: "(c, code c) \<in> set (paths ?root)" if "c \<in> set S" for c
  proof -
    from that assms(3) have "c \<in> fst ` set (paths ?root)"
      using map_fst_paths[of ?root] by (metis set_map)
    then obtain p where "(c, p) \<in> set (paths ?root)" by auto
    with look[OF this] show ?thesis by (simp add: code_def)
  qed
  then have "\<forall>c\<in>set S. map_of ?codes (Some c) \<noteq> None" using look by force
  then have e: "encode_text S ?codes = Inr (concat (map code S))"
    by (simp add: encode_text_defined code_def[abs_def])
  have "int (length (concat (map code S)))
      = (\<Sum>a\<in>set S. int (count_list S a) * int (length (code a)))"
    by (rule length_encoding)
  also have "\<dots> = (\<Sum>a\<in>set S. int (count_list S a) * int (depth ?root a))"
    using length_path_depth[OF assms(2) cov] by (intro sum.cong refl) simp
  also have "\<dots> = cost (\<lambda>a. int (count_list S a)) ?root"
    using cost_depth[OF assms(2), of "\<lambda>a. int (count_list S a)"] assms(3) by simp
  finally show ?thesis using g e br by simp
qed

lemma build_frequency_table_leaf_nodes:
  "leaf_nodes (build_frequency_table S)
     = map (leaf (\<lambda>a. int (count_list S a))) (map fst (build_frequency_table S))"
proof -
  let ?ft = "build_frequency_table S"
  have "f = int (count_list S c)" if "(c, f) \<in> set ?ft" for c f
  proof -
    from that have "map_of ?ft c = Some f"
      using build_frequency_table_distinct[of S] by simp
    then show ?thesis by (simp add: build_frequency_table_value split: if_splits)
  qed
  then show ?thesis by (auto simp: leaf_nodes_def leaf_def)
qed

lemma build_huffman_tree_optimal:
  assumes "S \<noteq> []"
  shows "\<exists>t. build_huffman_tree (build_frequency_table S) = Inr t \<and> proper t
           \<and> distinct (leaves (shape t)) \<and> set (leaves (shape t)) = set S
           \<and> optimal (\<lambda>a. int (count_list S a)) (shape t)"
proof -
  let ?ft = "build_frequency_table S"
  let ?w = "\<lambda>a. int (count_list S a)"
  let ?h = "heapify (leaf_nodes ?ft)"
  have ln: "leaf_nodes ?ft = map (leaf ?w) (map fst ?ft)"
    by (rule build_frequency_table_leaf_nodes)
  have "inj_on (leaf ?w) (set (map fst ?ft))" using leaf_inj by (auto simp: inj_on_def)
  then have "distinct (map (leaf ?w) (map fst ?ft))"
    using build_frequency_table_distinct[of S] by (subst distinct_map) blast
  then have "distinct (leaf_nodes ?ft)" by (simp only: ln)
  then have 2: "distinct ?h"
    using mset_heapify[of "leaf_nodes ?ft"] by (metis mset_eq_imp_distinct_iff)
  have "set ?h = set (leaf_nodes ?ft)"
    using arg_cong[OF mset_heapify[of "leaf_nodes ?ft"], of set_mset] by simp
  also have "\<dots> = leaf ?w ` set (map fst ?ft)" by (simp only: ln set_map)
  finally have 3: "set ?h = leaf ?w ` set S"
    by (simp only: build_frequency_table_keys)
  have 4: "set S \<noteq> {}" using assms by simp
  from merge_loop_optimal[OF is_heap_heapify 2 3 4] show ?thesis
    by (auto simp: build_huffman_tree_def leaf_nodes_def)
qed

subsection \<open>Prefix-freedom of a generated table\<close>

text \<open>
  For a frequency table that is not empty (a dictionary: its keys are distinct) the
  builder returns a tree, and the code table that a top-level call of \<open>generate_codes\<close>
  returns for it when the shared default dictionary is empty is prefix-free. When the
  dictionary already holds entries, the same is true of the codes of the table's own
  symbols, which the call writes anew; it need not be true of the whole table.
\<close>

lemma first_call_prefix_free:
  assumes "freq_table \<noteq> []" "distinct (map fst freq_table)"
  shows "\<exists>t. build_huffman_tree freq_table = Inr t \<and>
           (\<exists>codes. generate_codes_call [] t = (codes, None) \<and> prefix_free codes) \<and>
           (\<forall>shared. \<exists>codes. generate_codes_call shared t = (codes, None) \<and>
              (\<forall>a\<in>fst ` set freq_table. \<forall>b\<in>fst ` set freq_table. a \<noteq> b \<longrightarrow>
                 (\<exists>p q. map_of codes (Some a) = Some p \<and> map_of codes (Some b) = Some q
                    \<and> \<not> prefix p q)))"
proof -
  from assms obtain t where t: "build_huffman_tree freq_table = Inr t" "proper t"
    "distinct (leaves (shape t))" "set (leaves (shape t)) = fst ` set freq_table"
    by (rule build_huffman_tree_distinct)
  let ?es = "walk (shape t) []"
  have gen: "generate_codes_call shared t = (store ?es shared, None)" for shared
    using t(2) by (simp add: generate_codes_call_def generate_codes_proper)
  have d: "distinct (map fst ?es)" using t(3) by simp
  have free: "\<not> prefix p q" if "(a, p) \<in> set ?es" "(b, q) \<in> set ?es" "a \<noteq> b" for a b p q
  proof (cases "shape t")
    case (Leaf x)
    with that show ?thesis by simp
  next
    case (Branch l r)
    then have "?es = paths (shape t)" using walk_Branch by metis
    with that paths_prefix[of a p "shape t" b q] paths_same_code[OF t(3), of a p b]
    show ?thesis by auto
  qed
  have "store ?es [] = map (\<lambda>(a, p). (Some a, p)) ?es"
    using store_fresh[OF d, of "[]"] by simp
  moreover have "\<not> prefix p q" if "(a, p) \<in> set ?es" "(b, q) \<in> set ?es" "(a, p) \<noteq> (b, q)"
    for a b p q
  proof -
    have "a \<noteq> b" using that eq_key_imp_eq_value[OF d, of a p q] by auto
    with that free show ?thesis by blast
  qed
  ultimately have "prefix_free (store ?es [])"
    by (auto simp: prefix_free_def)
  moreover have "\<exists>p q. map_of (store ?es shared) (Some a) = Some p
      \<and> map_of (store ?es shared) (Some b) = Some q \<and> \<not> prefix p q"
    if "a \<in> fst ` set freq_table" "b \<in> fst ` set freq_table" "a \<noteq> b" for shared a b
  proof -
    from that t(4) have "a \<in> fst ` set ?es" "b \<in> fst ` set ?es"
      using map_fst_walk[of "shape t" "[]"] by (metis set_map)+
    then obtain p q where pq: "(a, p) \<in> set ?es" "(b, q) \<in> set ?es" by auto
    then have "map_of (store ?es shared) (Some a) = Some p"
      "map_of (store ?es shared) (Some b) = Some q"
      using map_of_store[OF d] by blast+
    with free[OF pq that(3)] show ?thesis by blast
  qed
  ultimately show ?thesis using t(1) gen by auto
qed

text \<open>The table that a second call can return is not prefix-free.\<close>

lemma leftover_table_not_prefix_free:
  "\<not> prefix_free [(Some CHR ''a'', ''1''), (Some CHR ''c'', ''10''), (Some CHR ''b'', ''0'')]"
  by (simp add: prefix_free_def)

section \<open>The claims\<close>

text \<open>
  C1 (round trip). For every non-empty text \<open>S\<close>: the tree builder returns a tree for
  the frequency table of \<open>S\<close>; a top-level call of \<open>generate_codes\<close> on it returns a
  code table without raising, whatever the shared default dictionary holds; encoding
  \<open>S\<close> with that table returns a bit string; and decoding that string with the tree
  returns \<open>S\<close>.
\<close>

theorem roundtrip:
  assumes "S \<noteq> []"
  shows "\<exists>t. build_huffman_tree (build_frequency_table S) = Inr t \<and>
           (\<forall>shared. \<exists>codes enc. generate_codes_call shared t = (codes, None)
               \<and> encode_text S codes = Inr enc \<and> decode_text enc t = Inr S)"
proof -
  let ?ft = "build_frequency_table S"
  have "?ft \<noteq> []" using assms by (simp add: build_frequency_table_empty)
  then obtain t where t: "build_huffman_tree ?ft = Inr t" "proper t"
    "distinct (leaves (shape t))" "set (leaves (shape t)) = fst ` set ?ft"
    using build_frequency_table_distinct by (rule build_huffman_tree_distinct)
  have "set S \<subseteq> set (leaves (shape t))"
    using t(4) build_frequency_table_keys[of S] by simp
  with t show ?thesis using roundtrip_proper by blast
qed

theorem roundtrip_witness:
  "''abca'' \<noteq> [] \<and>
   (\<exists>t. build_huffman_tree (build_frequency_table ''abca'') = Inr t \<and>
      (\<forall>shared. \<exists>codes enc. generate_codes_call shared t = (codes, None)
          \<and> encode_text ''abca'' codes = Inr enc \<and> decode_text enc t = Inr ''abca''))"
  using roundtrip[of "''abca''"] by simp

text \<open>
  C2 (prefix-freedom) does not hold in \<open>HuffmanAlgorithm.py\<close> for a call that follows
  another: the default dictionary is shared by all calls. After a call on the tree of
  the text \<open>abca\<close>, the call on the tree of the text \<open>ab\<close> returns the table
  \<open>a: 1, c: 10, b: 0\<close>, in which the code of \<open>a\<close> is a prefix of the code of \<open>c\<close>;
  \<open>HuffmanAlgorithm2.py\<close> returns \<open>b: 0, a: 1\<close> for that tree.
\<close>

theorem generate_codes_call_not_prefix_free:
  "build_huffman_tree (build_frequency_table ''abca'')
     = Inr (Node None 4 (Some (Node (Some CHR ''a'') 2 None None))
              (Some (Node None 2 (Some (Node (Some CHR ''c'') 1 None None))
                                 (Some (Node (Some CHR ''b'') 1 None None)))))
   \<and> build_huffman_tree (build_frequency_table ''ab'')
     = Inr (Node None 2 (Some (Node (Some CHR ''b'') 1 None None))
                        (Some (Node (Some CHR ''a'') 1 None None)))
   \<and> generate_codes_call []
        (Node None 4 (Some (Node (Some CHR ''a'') 2 None None))
           (Some (Node None 2 (Some (Node (Some CHR ''c'') 1 None None))
                              (Some (Node (Some CHR ''b'') 1 None None)))))
     = ([(Some CHR ''a'', ''0''), (Some CHR ''c'', ''10''), (Some CHR ''b'', ''11'')], None)
   \<and> generate_codes_call
        [(Some CHR ''a'', ''0''), (Some CHR ''c'', ''10''), (Some CHR ''b'', ''11'')]
        (Node None 2 (Some (Node (Some CHR ''b'') 1 None None))
                     (Some (Node (Some CHR ''a'') 1 None None)))
     = ([(Some CHR ''a'', ''1''), (Some CHR ''c'', ''10''), (Some CHR ''b'', ''0'')], None)
   \<and> prefix ''1'' ''10''
   \<and> generate_codes2_call
        (Node None 2 (Some (Node (Some CHR ''b'') 1 None None))
                     (Some (Node (Some CHR ''a'') 1 None None)))
     = ([(Some CHR ''b'', ''0''), (Some CHR ''a'', ''1'')], None)"
proof -
  have "build_huffman_tree (build_frequency_table ''abca'')
     = Inr (Node None 4 (Some (Node (Some CHR ''a'') 2 None None))
              (Some (Node None 2 (Some (Node (Some CHR ''c'') 1 None None))
                                 (Some (Node (Some CHR ''b'') 1 None None)))))"
    by code_simp
  moreover have "build_huffman_tree (build_frequency_table ''ab'')
     = Inr (Node None 2 (Some (Node (Some CHR ''b'') 1 None None))
                        (Some (Node (Some CHR ''a'') 1 None None)))"
    by code_simp
  ultimately show ?thesis
    by (simp add: generate_codes_call_def generate_codes2_call_def)
qed

text \<open>
  C3 (optimality). For every non-empty text \<open>S\<close> and every valid prefix code \<open>other\<close>
  for the symbols of \<open>S\<close>: the builder returns a tree for the frequency table of \<open>S\<close>,
  a top-level call of \<open>generate_codes\<close> returns its code table, and the encoding of
  \<open>S\<close> with that table has at most as many bits as the encoding of \<open>S\<close> with \<open>other\<close>.
\<close>

theorem huffman_optimal:
  assumes "S \<noteq> []" "valid_prefix_code (set S) other"
  shows "\<exists>t codes enc enc'. build_huffman_tree (build_frequency_table S) = Inr t
           \<and> generate_codes_call shared t = (codes, None)
           \<and> encode_text S codes = Inr enc \<and> encode_text S other = Inr enc'
           \<and> length enc \<le> length enc'"
proof -
  let ?w = "\<lambda>a. int (count_list S a)"
  define ocode where "ocode c = the (map_of other (Some c))" for c
  from assms(2) have val: "\<forall>a\<in>set S. map_of other (Some a) \<noteq> None"
    "\<forall>a\<in>set S. ocode a \<noteq> []"
    "\<forall>a\<in>set S. set (ocode a) \<subseteq> {CHR ''0'', CHR ''1''}"
    "\<forall>a\<in>set S. \<forall>b\<in>set S. a \<noteq> b \<longrightarrow> \<not> prefix (ocode a) (ocode b)"
    unfolding valid_prefix_code_def ocode_def by (auto, force+)
  have e': "encode_text S other = Inr (concat (map ocode S))"
    using encode_text_defined[OF val(1)] by (simp add: ocode_def[abs_def])
  have len': "int (length (concat (map ocode S)))
      = (\<Sum>a\<in>set S. ?w a * int (length (ocode a)))"
    by (rule length_encoding)
  from build_huffman_tree_optimal[OF assms(1)] obtain t where
    t: "build_huffman_tree (build_frequency_table S) = Inr t" "proper t"
       "distinct (leaves (shape t))" "set (leaves (shape t)) = set S"
       "optimal ?w (shape t)"
    by blast
  from encode_text_length[OF t(2,3,4), of shared] obtain codes enc where
    c: "generate_codes_call shared t = (codes, None)" "encode_text S codes = Inr enc"
       "int (length enc) = (if is_branch (shape t) then cost ?w (shape t) else int (length S))"
    by blast
  have "int (length enc) \<le> int (length (concat (map ocode S)))"
  proof (cases "is_branch (shape t)")
    case True
    have "\<exists>u. distinct (leaves u) \<and> set (leaves u) = set S
           \<and> cost ?w u \<le> (\<Sum>a\<in>set S. ?w a * int (length (ocode a)))"
      using assms(1) val(3,4) by (intro code_tree) simp_all
    then obtain u where u: "distinct (leaves u)" "set (leaves u) = set S"
      "cost ?w u \<le> (\<Sum>a\<in>set S. ?w a * int (length (ocode a)))" by blast
    from t(5) u(1,2) t(4) have "cost ?w (shape t) \<le> cost ?w u" by (simp add: optimal_def)
    with u(3) c(3) True len' show ?thesis by simp
  next
    case False
    have "\<forall>a\<in>set xs. ocode a \<noteq> [] \<Longrightarrow> length xs \<le> (\<Sum>a\<leftarrow>xs. length (ocode a))"
      for xs
    proof (induction xs)
      case Nil
      show ?case by simp
    next
      case (Cons x xs)
      then obtain y ys where "ocode x = y # ys" by (cases "ocode x") auto
      moreover from Cons have "length xs \<le> (\<Sum>a\<leftarrow>xs. length (ocode a))" by simp
      ultimately show ?case by simp
    qed
    from this[OF val(2)] show ?thesis using c(3) False by (simp add: length_concat comp_def)
  qed
  with t(1) c(1,2) e' show ?thesis by auto
qed

theorem huffman_optimal_witness:
  "''abca'' \<noteq> []
   \<and> valid_prefix_code (set ''abca'')
        [(Some CHR ''a'', ''00''), (Some CHR ''b'', ''01''), (Some CHR ''c'', ''1'')]
   \<and> (\<exists>t codes enc enc'. build_huffman_tree (build_frequency_table ''abca'') = Inr t
         \<and> generate_codes_call [] t = (codes, None)
         \<and> encode_text ''abca'' codes = Inr enc
         \<and> encode_text ''abca''
              [(Some CHR ''a'', ''00''), (Some CHR ''b'', ''01''), (Some CHR ''c'', ''1'')]
            = Inr enc'
         \<and> length enc \<le> length enc')"
proof -
  have v: "valid_prefix_code (set ''abca'')
        [(Some CHR ''a'', ''00''), (Some CHR ''b'', ''01''), (Some CHR ''c'', ''1'')]"
    by (simp add: valid_prefix_code_def)
  have n: "''abca'' \<noteq> []" by simp
  from huffman_optimal[OF n v, of "[]"] n v show ?thesis by blast
qed

text \<open>
  C4 (a fresh accumulator for every top-level call) does not hold in
  \<open>HuffmanAlgorithm.py\<close>: the default dictionary is shared by all calls. After a call on
  the tree of the text \<open>ab\<close>, a call on the tree of the text \<open>c\<close> returns a table with
  the three keys \<open>b\<close>, \<open>a\<close>, \<open>c\<close>, where \<open>HuffmanAlgorithm2.py\<close> returns the one entry
  of \<open>c\<close>.
\<close>

theorem generate_codes_call_shared_default:
  "build_huffman_tree (build_frequency_table ''ab'')
     = Inr (Node None 2 (Some (Node (Some CHR ''b'') 1 None None))
                        (Some (Node (Some CHR ''a'') 1 None None)))
   \<and> build_huffman_tree (build_frequency_table ''c'') = Inr (Node (Some CHR ''c'') 1 None None)
   \<and> generate_codes_call []
        (Node None 2 (Some (Node (Some CHR ''b'') 1 None None))
                     (Some (Node (Some CHR ''a'') 1 None None)))
     = ([(Some CHR ''b'', ''0''), (Some CHR ''a'', ''1'')], None)
   \<and> generate_codes_call [(Some CHR ''b'', ''0''), (Some CHR ''a'', ''1'')]
        (Node (Some CHR ''c'') 1 None None)
     = ([(Some CHR ''b'', ''0''), (Some CHR ''a'', ''1''), (Some CHR ''c'', ''0'')], None)
   \<and> generate_codes2_call (Node (Some CHR ''c'') 1 None None) = ([(Some CHR ''c'', ''0'')], None)"
proof -
  have "build_huffman_tree (build_frequency_table ''ab'')
     = Inr (Node None 2 (Some (Node (Some CHR ''b'') 1 None None))
                        (Some (Node (Some CHR ''a'') 1 None None)))"
    by code_simp
  moreover have "build_huffman_tree (build_frequency_table ''c'')
     = Inr (Node (Some CHR ''c'') 1 None None)"
    by code_simp
  ultimately show ?thesis
    by (simp add: generate_codes_call_def generate_codes2_call_def)
qed

text \<open>
  C5 (empty table), as the code has it. On an empty frequency table the heap is empty,
  the merge loop is not entered (no pop is attempted), and the final \<open>heap[0]\<close> raises
  Python's IndexError. There is no check of the table and no dedicated error.
\<close>

theorem build_huffman_tree_empty:
  "merge_loop (heapify (map (\<lambda>(c, f). Node (Some c) f None None) [])) = Inr []
   \<and> build_huffman_tree [] = Inl IndexError"
  by (simp add: build_huffman_tree_def heapify_def merge_loop_stop)

text \<open>The claim as stated, an explicit \<open>EmptyInputError\<close>, fails on the empty table.\<close>

theorem build_huffman_tree_empty_counterexample:
  "build_huffman_tree ([] :: char freq_table) \<noteq> Inl EmptyInputError"
  by (simp add: build_huffman_tree_def heapify_def merge_loop_stop)

text \<open>
  C6 (unknown symbol). \<open>encode_text\<close> raises KeyError exactly when some symbol of the
  text has no entry in the code table; otherwise it returns the codes of the symbols,
  concatenated in the order of the text.
\<close>

theorem encode_text_unknown_symbol:
  "(if \<exists>c\<in>set tx. map_of codes (Some c) = None
    then encode_text tx codes = Inl KeyError
    else encode_text tx codes = Inr (concat (map (\<lambda>c. the (map_of codes (Some c))) tx)))"
  using encode_text_undefined[of tx codes] encode_text_defined[of tx codes] by auto

theorem encode_text_unknown_symbol_witness:
  "encode_text ''abz'' [(Some CHR ''a'', ''0''), (Some CHR ''b'', ''10'')] = Inl KeyError
   \<and> encode_text ''aba'' [(Some CHR ''a'', ''0''), (Some CHR ''b'', ''10'')] = Inr ''0100''"
  using encode_text_unknown_symbol[of "''abz''" "[(Some CHR ''a'', ''0''), (Some CHR ''b'', ''10'')]"]
    encode_text_unknown_symbol[of "''aba''" "[(Some CHR ''a'', ''0''), (Some CHR ''b'', ''10'')]"]
  by simp


text \<open>
  C8 (a truncated stream). Let \<open>root\<close> be a proper tree that is not a single leaf and
  \<open>codes\<close> the table a top-level call of \<open>generate_codes\<close> returns for it. If \<open>enc\<close>
  is the encoding of a text \<open>S\<close> of symbols of the tree and \<open>p\<close> is a non-empty strict
  beginning of the code of a symbol of the tree, then \<open>decode_text\<close> on \<open>enc\<close> followed
  by \<open>p\<close> raises nothing and returns exactly \<open>S\<close>.
\<close>

theorem decode_text_truncated:
  assumes "proper root" "left root \<noteq> None"
    and "generate_codes_call shared root = (codes, e)"
    and "set S \<subseteq> set (leaves (shape root))"
    and "encode_text S codes = Inr enc"
    and "b \<in> set (leaves (shape root))" "map_of codes (Some b) = Some w"
    and "strict_prefix p w" "p \<noteq> []"
  shows "decode_text (enc @ p) root = Inr S"
proof -
  let ?t = "shape root"
  have br: "is_branch ?t" using assms(1,2) by (simp add: proper_branch_iff)
  then obtain l r where lr: "?t = Branch l r" by (cases ?t) auto
  have "walk ?t [] = paths ?t" unfolding lr by (rule walk_Branch)
  then have codes: "codes = store (paths ?t) shared"
    using assms(1,3) by (simp add: generate_codes_call_def generate_codes_proper)
  define code where "code c = the (map_of codes (Some c))" for c
  have inpaths: "(c, q) \<in> set (paths ?t)"
    if "c \<in> set (leaves ?t)" "map_of codes (Some c) = Some q" for c q
    using that map_of_store_member[of c "paths ?t" shared q] map_fst_paths[of ?t]
    unfolding codes by (metis set_map)
  have known: "\<forall>c\<in>set S. map_of codes (Some c) \<noteq> None"
  proof (rule ccontr)
    assume "\<not> ?thesis"
    then have "\<exists>c\<in>set S. map_of codes (Some c) = None" by simp
    from encode_text_undefined[OF this] assms(5) show False by simp
  qed
  then have enc: "enc = concat (map code S)"
    using assms(5) encode_text_defined[of S codes] by (simp add: code_def[abs_def])
  have cov: "\<forall>c\<in>set S. (c, code c) \<in> set (paths ?t)"
    using known assms(4) inpaths by (auto simp: code_def)
  from assms(8) obtain q where q: "w = p @ q" "q \<noteq> []"
    by (auto simp: strict_prefix_def prefix_def)
  have "(b, p @ q) \<in> set (paths ?t)" using inpaths[OF assms(6,7)] q by simp
  from tdecode_partial[OF this q(2)] have "tdecode ?t p ?t S = S" .
  then have "tdecode ?t (enc @ p) ?t [] = S"
    using tdecode_concat[OF br cov, of p "[]"] by (simp add: enc)
  then show ?thesis using assms(1) br by (simp add: decode_text_proper)
qed

theorem decode_text_truncated_witness:
  "proper (Node None 4 (Some (Node (Some CHR ''a'') 2 None None))
       (Some (Node None 2 (Some (Node (Some CHR ''c'') 1 None None))
                          (Some (Node (Some CHR ''b'') 1 None None)))))
   \<and> generate_codes_call []
       (Node None 4 (Some (Node (Some CHR ''a'') 2 None None))
         (Some (Node None 2 (Some (Node (Some CHR ''c'') 1 None None))
                            (Some (Node (Some CHR ''b'') 1 None None)))))
      = ([(Some CHR ''a'', ''0''), (Some CHR ''c'', ''10''), (Some CHR ''b'', ''11'')], None)
   \<and> encode_text ''ab'' [(Some CHR ''a'', ''0''), (Some CHR ''c'', ''10''), (Some CHR ''b'', ''11'')]
      = Inr ''011''
   \<and> strict_prefix ''1'' ''10''
   \<and> decode_text (''011'' @ ''1'')
       (Node None 4 (Some (Node (Some CHR ''a'') 2 None None))
         (Some (Node None 2 (Some (Node (Some CHR ''c'') 1 None None))
                            (Some (Node (Some CHR ''b'') 1 None None))))) = Inr ''ab''"
proof -
  let ?root = "Node None 4 (Some (Node (Some CHR ''a'') 2 None None))
       (Some (Node None 2 (Some (Node (Some CHR ''c'') 1 None None))
                          (Some (Node (Some CHR ''b'') 1 None None))))"
  let ?codes = "[(Some CHR ''a'', ''0''), (Some CHR ''c'', ''10''), (Some CHR ''b'', ''11'')]"
  have 1: "proper ?root" by simp
  have 2: "left ?root \<noteq> None" by simp
  have 3: "generate_codes_call [] ?root = (?codes, None)"
    by (simp add: generate_codes_call_def)
  have 4: "set ''ab'' \<subseteq> set (leaves (shape ?root))" by simp
  have 5: "encode_text ''ab'' ?codes = Inr ''011''" by simp
  have 6: "CHR ''c'' \<in> set (leaves (shape ?root))" by simp
  have 7: "map_of ?codes (Some CHR ''c'') = Some ''10''" by simp
  have 8: "strict_prefix ''1'' ''10''" by (simp add: strict_prefix_def)
  have 9: "''1'' \<noteq> []" by simp
  from decode_text_truncated[OF 1 2 3 4 5 6 7 8 9] 1 3 5 8 show ?thesis by blast
qed

text \<open>
  C9 (the two modules agree). Each function of \<open>HuffmanAlgorithm2.py\<close> returns what the
  function of the same name in \<open>HuffmanAlgorithm.py\<close> returns on the same arguments,
  errors included; for \<open>generate_codes\<close> this is a top-level call of the second module
  against a top-level call of the first whose shared default dictionary is still
  empty. So for every text the two modules produce the same frequency table, tree,
  code table, bit string and decoded text.
\<close>

theorem modules_agree:
  "build_frequency_table2 tx = build_frequency_table tx
   \<and> build_huffman_tree2 freq_table = build_huffman_tree freq_table
   \<and> generate_codes2_call root = generate_codes_call [] root
   \<and> encode_text2 tx codes = encode_text tx codes
   \<and> decode_text2 bits root = decode_text bits root"
proof -
  have "build_frequency_table2 tx = build_frequency_table tx"
    by (simp add: build_frequency_table2_def build_frequency_table_def)
  moreover have "build_huffman_tree2 freq_table = build_huffman_tree freq_table"
    by (simp add: build_huffman_tree2_def build_huffman_tree_def merge_loop2_eq)
  moreover have "generate_codes2_call root = generate_codes_call [] root"
    unfolding generate_codes2_call_def generate_codes_call_def generate_codes2_eq
    by (cases root) simp
  moreover have "decode_text2 bits root = decode_text bits root"
    by (simp add: decode_text2_def decode_text_def decode_loop2_eq)
  ultimately show ?thesis by (simp add: encode_text2_eq)
qed

text \<open>
  C10 (decoding is total). For a frequency table with at least two entries the builder
  returns a tree in which every node is either a leaf with a symbol or has both
  children, the root having both. On every input string \<open>decode_text\<close> returns a
  text: it runs the loop from the root, and the loop, at any node and for any character
  other than \<open>0\<close>, goes to the \<open>right\<close> child of the current node (emitting the
  symbol and returning to the root when that child carries one). So the result is the
  same as when every such character is replaced by \<open>1\<close>; and when the keys of the
  table are distinct, a string that becomes the encoding of a text \<open>S\<close> by that
  replacement decodes to \<open>S\<close>, the table of \<open>generate_codes\<close> writing \<open>1\<close> for the
  right child.
\<close>

theorem decode_text_total:
  assumes "length freq_table \<ge> 2"
  shows "\<exists>root. build_huffman_tree freq_table = Inr root \<and> proper root
           \<and> left root \<noteq> None \<and> right root \<noteq> None \<and>
           (\<forall>bits. (\<exists>out. decode_text bits root = Inr out) \<and>
              decode_text bits root = decode_loop root bits root [] \<and>
              decode_text (map (\<lambda>b. if b = CHR ''0'' then CHR ''0'' else CHR ''1'') bits) root
                = decode_text bits root) \<and>
           (\<forall>b rest current result. b \<noteq> CHR ''0'' \<longrightarrow>
              decode_loop root (b # rest) current result =
                (case right current of
                   None \<Rightarrow> Inl AttributeError
                 | Some n \<Rightarrow>
                     (case char n of
                        Some c \<Rightarrow> decode_loop root rest root (result @ [c])
                      | None \<Rightarrow> decode_loop root rest n result))) \<and>
           (distinct (map fst freq_table) \<longrightarrow>
              (\<forall>shared codes e S enc bits.
                 generate_codes_call shared root = (codes, e) \<and> set S \<subseteq> fst ` set freq_table
                 \<and> encode_text S codes = Inr enc
                 \<and> map (\<lambda>b. if b = CHR ''0'' then CHR ''0'' else CHR ''1'') bits = enc
                 \<longrightarrow> decode_text bits root = Inr S))"
proof -
  let ?norm = "\<lambda>b. if b = CHR ''0'' then CHR ''0'' else CHR ''1''"
  from assms have ne: "freq_table \<noteq> []" and two: "length freq_table > 1" by auto
  with build_huffman_tree_result[of freq_table] obtain root where
    r: "build_huffman_tree freq_table = Inr root" "proper root" "is_branch (shape root)"
    by auto
  from r(2,3) obtain f l rt where root: "root = Node None f (Some l) (Some rt)"
    by (cases root rule: proper_cases) auto
  have norm: "decode_text (map ?norm bits) root = decode_text bits root" for bits
    by (cases "char root") (simp_all add: decode_text_def decode_loop_other_char)
  have total: "\<exists>out. decode_text bits root = Inr out" for bits
    using r by (simp add: decode_text_proper)
  have loop: "decode_text bits root = decode_loop root bits root []" for bits
    by (simp add: decode_text_def root)
  have sem: "decode_text bits root = Inr S"
    if d: "distinct (map fst freq_table)"
      and g: "generate_codes_call shared root = (codes, e)"
      and S: "set S \<subseteq> fst ` set freq_table"
      and enc: "encode_text S codes = Inr enc"
      and bits: "map ?norm bits = enc"
    for shared codes e S enc bits
  proof -
    from ne d obtain t where t: "build_huffman_tree freq_table = Inr t" "proper t"
      "distinct (leaves (shape t))" "set (leaves (shape t)) = fst ` set freq_table"
      by (rule build_huffman_tree_distinct)
    with r(1) have tr: "t = root" by simp
    from roundtrip_proper[of root S shared] t(2,3,4) S tr obtain codes' enc' where
      c: "generate_codes_call shared root = (codes', None)" "encode_text S codes' = Inr enc'"
         "decode_text enc' root = Inr S"
      by auto
    with g enc have "enc' = enc" by simp
    with c(3) bits norm[of bits] show ?thesis by simp
  qed
  have kids: "left root \<noteq> None" "right root \<noteq> None" by (simp_all add: root)
  have A: "\<forall>bits. (\<exists>out. decode_text bits root = Inr out) \<and>
              decode_text bits root = decode_loop root bits root [] \<and>
              decode_text (map ?norm bits) root = decode_text bits root"
    using total loop norm by blast
  have B: "\<forall>b rest current result. b \<noteq> CHR ''0'' \<longrightarrow>
              decode_loop root (b # rest) current result =
                (case right current of
                   None \<Rightarrow> Inl AttributeError
                 | Some n \<Rightarrow>
                     (case char n of
                        Some c \<Rightarrow> decode_loop root rest root (result @ [c])
                      | None \<Rightarrow> decode_loop root rest n result))"
    by (intro allI impI) (rule decode_loop_right_step)
  have C: "distinct (map fst freq_table) \<longrightarrow>
              (\<forall>shared codes e S enc bits.
                 generate_codes_call shared root = (codes, e) \<and> set S \<subseteq> fst ` set freq_table
                 \<and> encode_text S codes = Inr enc \<and> map ?norm bits = enc
                 \<longrightarrow> decode_text bits root = Inr S)"
  proof (intro impI allI)
    fix shared codes e S enc bits
    assume "distinct (map fst freq_table)"
      and "generate_codes_call shared root = (codes, e) \<and> set S \<subseteq> fst ` set freq_table
                 \<and> encode_text S codes = Inr enc \<and> map ?norm bits = enc"
    then show "decode_text bits root = Inr S" using sem[of shared codes e S enc bits] by simp
  qed
  from r(1,2) kids A B C show ?thesis by (intro exI[of _ root] conjI)
qed

theorem decode_text_total_witness:
  "length [(CHR ''a'', 2::int), (CHR ''b'', 1)] \<ge> 2
   \<and> (\<exists>root. build_huffman_tree [(CHR ''a'', 2), (CHR ''b'', 1)] = Inr root \<and> proper root
        \<and> left root \<noteq> None \<and> right root \<noteq> None
        \<and> (\<forall>bits. \<exists>out. decode_text bits root = Inr out))
   \<and> build_huffman_tree [(CHR ''a'', 2), (CHR ''b'', 1)]
       = Inr (Node None 3 (Some (Node (Some CHR ''b'') 1 None None))
                          (Some (Node (Some CHR ''a'') 2 None None)))
   \<and> decode_text ''x0y1''
        (Node None 3 (Some (Node (Some CHR ''b'') 1 None None))
                     (Some (Node (Some CHR ''a'') 2 None None))) = Inr ''abaa''"
proof -
  have b: "build_huffman_tree [(CHR ''a'', 2), (CHR ''b'', 1)]
       = Inr (Node None 3 (Some (Node (Some CHR ''b'') 1 None None))
                          (Some (Node (Some CHR ''a'') 2 None None)))"
    by code_simp
  have l: "length [(CHR ''a'', 2::int), (CHR ''b'', 1)] \<ge> 2" by simp
  let ?norm = "\<lambda>b. if b = CHR ''0'' then CHR ''0'' else CHR ''1''"
  let ?ft = "[(CHR ''a'', 2::int), (CHR ''b'', 1)]"
  from decode_text_total[OF l] obtain root where
    r: "build_huffman_tree ?ft = Inr root" "proper root"
       "left root \<noteq> None" "right root \<noteq> None"
    and A: "\<forall>bits. (\<exists>out. decode_text bits root = Inr out) \<and>
              decode_text bits root = decode_loop root bits root [] \<and>
              decode_text (map ?norm bits) root = decode_text bits root"
    and B: "\<forall>b rest current result. b \<noteq> CHR ''0'' \<longrightarrow>
              decode_loop root (b # rest) current result =
                (case right current of
                   None \<Rightarrow> Inl AttributeError
                 | Some n \<Rightarrow>
                     (case char n of
                        Some c \<Rightarrow> decode_loop root rest root (result @ [c])
                      | None \<Rightarrow> decode_loop root rest n result))"
    and C: "distinct (map fst ?ft) \<longrightarrow>
              (\<forall>shared codes e S enc bits.
                 generate_codes_call shared root = (codes, e) \<and> set S \<subseteq> fst ` set ?ft
                 \<and> encode_text S codes = Inr enc \<and> map ?norm bits = enc
                 \<longrightarrow> decode_text bits root = Inr S)"
    by (elim exE conjE) (rule that, assumption+)
  from A have tot: "\<forall>bits. \<exists>out. decode_text bits root = Inr out" by blast
  have "decode_text ''x0y1''
        (Node None 3 (Some (Node (Some CHR ''b'') 1 None None))
                     (Some (Node (Some CHR ''a'') 2 None None))) = Inr ''abaa''"
    by (simp add: decode_text_def)
  moreover have "\<exists>root. build_huffman_tree [(CHR ''a'', 2), (CHR ''b'', 1)] = Inr root \<and> proper root
        \<and> left root \<noteq> None \<and> right root \<noteq> None
        \<and> (\<forall>bits. \<exists>out. decode_text bits root = Inr out)"
    using r tot by (intro exI[of _ root] conjI)
  ultimately show ?thesis using l b by (intro conjI)
qed

end
